theory Spec2Isabelle
  imports Complex_Main "HOL-Library.AList"
begin

section \<open>Data model (types.ts)\<close>

text \<open>
  JavaScript numbers that hold counts, ranks and millisecond timestamps are modelled as
  \<open>int\<close>; scores and confidences, which are quotients, as \<open>real\<close>. A \<open>Date\<close> is its
  millisecond value. An optional field \<open>f?: T\<close> is a \<open>T option\<close>. The open
  \<open>metadata\<close> bags are not read by the cache or the search engine and are left out.
\<close>

datatype ChartSource = BILLBOARD | LASTFM | CUSTOM

record ChartEntry =
  rank :: int
  title :: string
  artist :: string
  album :: "string option"
  label :: "string option"
  lastWeek :: "int option"
  peakPosition :: "int option"
  weeksOnChart :: "int option"
  chartDate :: int
  entrySource :: ChartSource

record ChartData =
  chartType :: string
  date :: int
  entries :: "ChartEntry list"
  source :: ChartSource
  totalEntries :: int

section \<open>JavaScript truthiness and string primitives\<close>

text \<open>
  \<open>if (x)\<close> on an optional string is true when the string is present and not empty; on an
  optional number when it is present and not zero; on an optional boolean when it is
  present and true; on an optional object whenever it is present.
\<close>

definition truthyStr :: "string option \<Rightarrow> bool" where
  "truthyStr s = (case s of None \<Rightarrow> False | Some t \<Rightarrow> t \<noteq> [])"

definition truthyNum :: "int option \<Rightarrow> bool" where
  "truthyNum n = (case n of None \<Rightarrow> False | Some k \<Rightarrow> k \<noteq> 0)"

definition truthyBool :: "bool option \<Rightarrow> bool" where
  "truthyBool b = (case b of None \<Rightarrow> False | Some v \<Rightarrow> v)"

text \<open>
  \<open>String.prototype.toLowerCase\<close> is a function of the JavaScript library, given by the
  Unicode case tables: it lowers every cased letter and may change the length of a string.
  It is not fixed here. Every function below that lowercases takes it as its first
  argument \<open>lower\<close>, and every theorem holds for every such function; where a proof needs
  a fact about it (the empty string is lowered to the empty string), the fact is a
  hypothesis of the theorem.
\<close>

text \<open>\<open>text.includes(q)\<close>: \<open>q\<close> occurs in \<open>text\<close> as a contiguous substring.\<close>

fun str_includes :: "'a list \<Rightarrow> 'a list \<Rightarrow> bool" where
  "str_includes [] q = (q = [])"
| "str_includes (x # xs) q = (take (length q) (x # xs) = q \<or> str_includes xs q)"

text \<open>
  An array store \<open>xs[i] = v\<close> at an index inside the array or at its end (JavaScript
  extends the array by one there). \<open>calculateSimilarity\<close> writes every row from left to
  right, so no other index arises.
\<close>

definition js_store :: "'a list \<Rightarrow> nat \<Rightarrow> 'a \<Rightarrow> 'a list" where
  "js_store xs i v = (if i < length xs then xs[i := v] else xs @ [v])"

section \<open>SearchEngine.ts: text matching\<close>

subsection \<open>calculateSimilarity\<close>

text \<open>The first loop: \<open>matrix[i] = [i]\<close> for \<open>i = 0 .. str2.length\<close>.\<close>

definition initRows :: "nat \<Rightarrow> nat list list" where
  "initRows n2 = map (\<lambda>i. [i]) [0..<Suc n2]"

text \<open>The second loop: \<open>matrix[0][j] = j\<close> for \<open>j = 0 .. str1.length\<close>.\<close>

definition initFirstRow :: "nat \<Rightarrow> nat list list \<Rightarrow> nat list list" where
  "initFirstRow n1 matrix =
     fold (\<lambda>j m. m[0 := js_store (m ! 0) j j]) [0..<Suc n1] matrix"

text \<open>The value the loop body stores in \<open>matrix[i][j]\<close>.\<close>

definition cellValue :: "'a list \<Rightarrow> 'a list \<Rightarrow> nat list list \<Rightarrow> nat \<Rightarrow> nat \<Rightarrow> nat" where
  "cellValue str1 str2 m i j =
     (if str2 ! (i - 1) = str1 ! (j - 1) then m ! (i - 1) ! (j - 1)
      else min (m ! (i - 1) ! (j - 1) + 1)
             (min (m ! i ! (j - 1) + 1) (m ! (i - 1) ! j + 1)))"

text \<open>The inner loop, \<open>j = 1 .. str1.length\<close>, for one \<open>i\<close>.\<close>

definition fillRow :: "'a list \<Rightarrow> 'a list \<Rightarrow> nat \<Rightarrow> nat list list \<Rightarrow> nat list list" where
  "fillRow str1 str2 i matrix =
     fold (\<lambda>j m. m[i := js_store (m ! i) j (cellValue str1 str2 m i j)])
       [1..<Suc (length str1)] matrix"

text \<open>The outer loop, \<open>i = 1 .. str2.length\<close>, after the two initialising loops.\<close>

definition fillMatrix :: "'a list \<Rightarrow> 'a list \<Rightarrow> nat list list" where
  "fillMatrix str1 str2 =
     fold (fillRow str1 str2) [1..<Suc (length str2)]
       (initFirstRow (length str1) (initRows (length str2)))"

definition calculateSimilarity :: "'a list \<Rightarrow> 'a list \<Rightarrow> real" where
  "calculateSimilarity str1 str2 =
     (let matrix = fillMatrix str1 str2;
          distance = matrix ! length str2 ! length str1;
          maxLength = max (length str1) (length str2)
      in if maxLength = 0 then 1
         else (real maxLength - real distance) / real maxLength)"

subsection \<open>matchText\<close>

datatype MatchKind = Exact | Partial | Fuzzy

record TextMatch =
  matchType :: MatchKind
  confidence :: real

definition matchText ::
  "('a list \<Rightarrow> 'a list) \<Rightarrow> 'a list \<Rightarrow> 'a list \<Rightarrow> bool \<Rightarrow> TextMatch option" where
  "matchText lower text query fuzzy =
     (let lowerText = lower text; lowerQuery = lower query
      in if lowerText = lowerQuery then Some \<lparr>matchType = Exact, confidence = 1\<rparr>
         else if str_includes lowerText lowerQuery
           then Some \<lparr>matchType = Partial,
                      confidence = real (length lowerQuery) / real (length lowerText)\<rparr>
         else if fuzzy then
           (let similarity = calculateSimilarity lowerText lowerQuery
            in if similarity > 6 / 10
               then Some \<lparr>matchType = Fuzzy, confidence = similarity\<rparr>
               else None)
         else None)"

subsection \<open>The Levenshtein distance\<close>

text \<open>
  The edit distance as it is usually defined, by recursion on the two strings: the
  distance to the empty string is the length; equal first characters cost nothing; otherwise
  one edit (a substitution, a deletion or an insertion) plus the cheapest remainder.
\<close>

fun levenshtein :: "'a list \<Rightarrow> 'a list \<Rightarrow> nat" where
  "levenshtein [] ys = length ys"
| "levenshtein (x # xs) [] = Suc (length xs)"
| "levenshtein (x # xs) (y # ys) =
     (if x = y then levenshtein xs ys
      else 1 + min (levenshtein xs ys)
                 (min (levenshtein (x # xs) ys) (levenshtein xs (y # ys))))"

text \<open>
  Independently of any recursion scheme: \<open>editSteps n xs ys\<close> holds when \<open>xs\<close> is turned
  into \<open>ys\<close> by \<open>n\<close> single-character substitutions, deletions and insertions (and any
  number of characters kept). The distance is the least such \<open>n\<close>.
\<close>

inductive editSteps :: "nat \<Rightarrow> 'a list \<Rightarrow> 'a list \<Rightarrow> bool" where
  stop: "editSteps 0 [] []"
| keep: "editSteps n xs ys \<Longrightarrow> editSteps n (a # xs) (a # ys)"
| substitute: "editSteps n xs ys \<Longrightarrow> editSteps (Suc n) (a # xs) (b # ys)"
| delete: "editSteps n xs ys \<Longrightarrow> editSteps (Suc n) (a # xs) ys"
| insert: "editSteps n xs ys \<Longrightarrow> editSteps (Suc n) xs (b # ys)"

text \<open>The normalised similarity of the specification.\<close>

definition levenshteinSimilarity :: "'a list \<Rightarrow> 'a list \<Rightarrow> real" where
  "levenshteinSimilarity a b =
     (let m = max (length a) (length b)
      in if m = 0 then 1 else (real m - real (levenshtein a b)) / real m)"


text \<open>
  After the outer loop has run for \<open>i = 1 .. k\<close>, cell \<open>(i, j)\<close> of every finished row holds the
  distance between the first \<open>i\<close> characters of \<open>str2\<close> and the first \<open>j\<close> of \<open>str1\<close>;
  the rows still to do are as the first loop left them.
\<close>

definition levCell :: "'a list \<Rightarrow> 'a list \<Rightarrow> nat \<Rightarrow> nat \<Rightarrow> nat" where
  "levCell str1 str2 i j = levenshtein (rev (take i str2)) (rev (take j str1))"

definition rowsDone :: "'a list \<Rightarrow> 'a list \<Rightarrow> nat \<Rightarrow> nat list list \<Rightarrow> bool" where
  "rowsDone str1 str2 k m \<longleftrightarrow>
     length m = Suc (length str2) \<and>
     (\<forall>i \<le> length str2.
        m ! i = (if i \<le> k then map (levCell str1 str2 i) [0..<Suc (length str1)] else [i]))"

section \<open>SearchEngine.ts: queries, scoring and search\<close>

record Range =
  rmin :: int
  rmax :: int

record DateRange =
  rstart :: int
  rend :: int

record SearchQuery =
  qtitle :: "string option"
  qartist :: "string option"
  qalbum :: "string option"
  qchartType :: "string option"
  qsource :: "ChartSource option"
  qdateRange :: "DateRange option"
  qrankRange :: "Range option"
  qweeksRange :: "Range option"
  qpeakRange :: "Range option"
  qnewEntriesOnly :: "bool option"
  qfuzzy :: "bool option"
  qlimit :: "int option"

datatype MatchField = TitleField | ArtistField | AlbumField

record SearchMatch = TextMatch +
  field :: MatchField
  matchValue :: string

record SearchResult =
  entry :: ChartEntry
  chartData :: ChartData
  score :: real
  matches :: "SearchMatch list"

record SearchStats =
  totalResults :: nat
  searchTime :: int
  chartsSearched :: nat
  exactMatches :: nat
  partialMatches :: nat
  fuzzyMatches :: nat

text \<open>\<open>{ field: f, value: v, ...match }\<close>\<close>

definition mkMatch :: "MatchField \<Rightarrow> string \<Rightarrow> TextMatch \<Rightarrow> SearchMatch" where
  "mkMatch f v m =
     \<lparr>matchType = matchType m, confidence = confidence m, field = f, matchValue = v\<rparr>"

subsection \<open>scoreEntry\<close>

text \<open>The four blocks under "Apply filters first": each says when its \<open>return null\<close> is taken.\<close>

definition rankRangeRejects :: "ChartEntry \<Rightarrow> SearchQuery \<Rightarrow> bool" where
  "rankRangeRejects e q =
     (case qrankRange q of None \<Rightarrow> False
      | Some r \<Rightarrow> rank e < rmin r \<or> rank e > rmax r)"

definition weeksRangeRejects :: "ChartEntry \<Rightarrow> SearchQuery \<Rightarrow> bool" where
  "weeksRangeRejects e q =
     (case qweeksRange q of None \<Rightarrow> False
      | Some r \<Rightarrow>
          (case weeksOnChart e of None \<Rightarrow> False
           | Some w \<Rightarrow> w \<noteq> 0 \<and> (w < rmin r \<or> w > rmax r)))"

definition peakRangeRejects :: "ChartEntry \<Rightarrow> SearchQuery \<Rightarrow> bool" where
  "peakRangeRejects e q =
     (case qpeakRange q of None \<Rightarrow> False
      | Some r \<Rightarrow>
          (case peakPosition e of None \<Rightarrow> False
           | Some p \<Rightarrow> p \<noteq> 0 \<and> (p < rmin r \<or> p > rmax r)))"

definition newEntriesRejects :: "ChartEntry \<Rightarrow> SearchQuery \<Rightarrow> bool" where
  "newEntriesRejects e q = (truthyBool (qnewEntriesOnly q) \<and> truthyNum (lastWeek e))"

text \<open>
  The three text blocks. Each takes the running \<open>(score, matches)\<close> and gives the updated
  pair, or \<open>None\<close> where the code returns null.
\<close>

definition titleStep ::
  "(string \<Rightarrow> string) \<Rightarrow> ChartEntry \<Rightarrow> SearchQuery \<Rightarrow> real \<times> SearchMatch list
     \<Rightarrow> (real \<times> SearchMatch list) option" where
  "titleStep lower e q acc =
     (case qtitle q of
        None \<Rightarrow> Some acc
      | Some t \<Rightarrow>
          if t = [] then Some acc
          else (case matchText lower (title e) t (truthyBool (qfuzzy q)) of
                  Some m \<Rightarrow>
                    Some (fst acc + confidence m * 3, snd acc @ [mkMatch TitleField (title e) m])
                | None \<Rightarrow> if \<not> truthyBool (qfuzzy q) then None else Some acc))"

definition artistStep ::
  "(string \<Rightarrow> string) \<Rightarrow> ChartEntry \<Rightarrow> SearchQuery \<Rightarrow> real \<times> SearchMatch list
     \<Rightarrow> (real \<times> SearchMatch list) option" where
  "artistStep lower e q acc =
     (case qartist q of
        None \<Rightarrow> Some acc
      | Some a \<Rightarrow>
          if a = [] then Some acc
          else (case matchText lower (artist e) a (truthyBool (qfuzzy q)) of
                  Some m \<Rightarrow>
                    Some (fst acc + confidence m * 2, snd acc @ [mkMatch ArtistField (artist e) m])
                | None \<Rightarrow>
                    if \<not> truthyBool (qfuzzy q) \<and> \<not> truthyStr (qtitle q) then None
                    else Some acc))"

definition albumStep ::
  "(string \<Rightarrow> string) \<Rightarrow> ChartEntry \<Rightarrow> SearchQuery \<Rightarrow> real \<times> SearchMatch list
     \<Rightarrow> real \<times> SearchMatch list" where
  "albumStep lower e q acc =
     (case qalbum q of
        None \<Rightarrow> acc
      | Some b \<Rightarrow>
          (case album e of
             None \<Rightarrow> acc
           | Some al \<Rightarrow>
               if b = [] \<or> al = [] then acc
               else (case matchText lower al b (truthyBool (qfuzzy q)) of
                       Some m \<Rightarrow>
                         (fst acc + confidence m * 1, snd acc @ [mkMatch AlbumField al m])
                     | None \<Rightarrow> acc)))"

text \<open>The position boost and the recency boost; \<open>now\<close> is the clock reading.\<close>

definition rankBoost :: "ChartEntry \<Rightarrow> real" where
  "rankBoost e = (101 - real_of_int (rank e)) / 100"

definition recencyBoost :: "ChartData \<Rightarrow> int \<Rightarrow> real" where
  "recencyBoost ch now =
     (let daysSinceChart = real_of_int (now - date ch) / (1000 * 60 * 60 * 24)
      in max 0 ((30 - daysSinceChart) / 30))"

definition scoreEntry ::
  "(string \<Rightarrow> string) \<Rightarrow> ChartEntry \<Rightarrow> ChartData \<Rightarrow> SearchQuery \<Rightarrow> int
     \<Rightarrow> SearchResult option" where
  "scoreEntry lower e ch q now =
     (if rankRangeRejects e q then None
      else if weeksRangeRejects e q then None
      else if peakRangeRejects e q then None
      else if newEntriesRejects e q then None
      else (case titleStep lower e q (0, []) of
              None \<Rightarrow> None
            | Some acc1 \<Rightarrow>
                (case artistStep lower e q acc1 of
                   None \<Rightarrow> None
                 | Some acc2 \<Rightarrow>
                     (let acc3 = albumStep lower e q acc2;
                          sc = fst acc3 + rankBoost e + recencyBoost ch now
                      in if sc = 0 \<and> snd acc3 = [] then None
                         else Some \<lparr>entry = e, chartData = ch, score = sc,
                                     matches = snd acc3\<rparr>))))"

subsection \<open>The engine's state and indexChartData\<close>

text \<open>
  A JavaScript \<open>Map\<close> is an association list in insertion order: \<open>Map.set\<close> on a key
  already present replaces the value in place, on a new key appends (\<open>AList.update\<close>).
  The chart key \<open>source-chartType-ISODate\<close> is modelled as the triple it is formatted
  from: no enum value of \<open>ChartSource\<close> contains a hyphen and an ISO date has a fixed
  layout, so two charts have the same key string exactly when the triples agree.
\<close>

type_synonym ChartKey = "ChartSource \<times> string \<times> int"

record SearchEngine =
  searchIndex :: "(string \<times> ChartEntry list) list"
  chartDataCache :: "(ChartKey \<times> ChartData) list"

definition chartKey :: "ChartData \<Rightarrow> ChartKey" where
  "chartKey ch = (source ch, chartType ch, date ch)"

definition addToIndex ::
  "string \<Rightarrow> string \<Rightarrow> ChartEntry \<Rightarrow> (string \<times> ChartEntry list) list
     \<Rightarrow> (string \<times> ChartEntry list) list" where
  "addToIndex fld v e idx =
     (let key = fld @ '':'' @ v;
          idx1 = (if map_of idx key = None then AList.update key [] idx else idx)
      in AList.update key (the (map_of idx1 key) @ [e]) idx1)"

definition indexEntry ::
  "(string \<Rightarrow> string) \<Rightarrow> ChartEntry \<Rightarrow> (string \<times> ChartEntry list) list
     \<Rightarrow> (string \<times> ChartEntry list) list" where
  "indexEntry lower e idx =
     (let idx1 = addToIndex ''title'' (lower (title e)) e idx;
          idx2 = addToIndex ''artist'' (lower (artist e)) e idx1;
          idx3 = (case album e of
                    None \<Rightarrow> idx2
                  | Some al \<Rightarrow>
                      if al = [] then idx2 else addToIndex ''album'' (lower al) e idx2)
      in addToIndex ''full'' (lower (title e @ '' '' @ artist e)) e idx3)"

definition indexChart :: "(string \<Rightarrow> string) \<Rightarrow> ChartData \<Rightarrow> SearchEngine \<Rightarrow> SearchEngine" where
  "indexChart lower ch eng =
     \<lparr>searchIndex = fold (indexEntry lower) (entries ch) (searchIndex eng),
      chartDataCache = AList.update (chartKey ch) ch (chartDataCache eng)\<rparr>"

definition indexChartData ::
  "(string \<Rightarrow> string) \<Rightarrow> SearchEngine \<Rightarrow> ChartData list \<Rightarrow> SearchEngine" where
  "indexChartData lower eng charts = fold (indexChart lower) charts eng"

definition clearIndex :: "SearchEngine \<Rightarrow> SearchEngine" where
  "clearIndex eng = \<lparr>searchIndex = [], chartDataCache = []\<rparr>"

subsection \<open>getRelevantCharts and search\<close>

text \<open>A chart is skipped (\<open>continue\<close>) when one of the three chart filters fails.\<close>

definition chartSkipped :: "SearchQuery \<Rightarrow> ChartData \<Rightarrow> bool" where
  "chartSkipped q ch =
     ((case qsource q of None \<Rightarrow> False | Some s \<Rightarrow> source ch \<noteq> s) \<or>
      (case qchartType q of None \<Rightarrow> False | Some t \<Rightarrow> t \<noteq> [] \<and> chartType ch \<noteq> t) \<or>
      (case qdateRange q of None \<Rightarrow> False
       | Some r \<Rightarrow> date ch < rstart r \<or> date ch > rend r))"

definition getRelevantCharts :: "SearchEngine \<Rightarrow> SearchQuery \<Rightarrow> ChartData list" where
  "getRelevantCharts eng q =
     filter (\<lambda>ch. \<not> chartSkipped q ch) (map snd (chartDataCache eng))"

text \<open>
  The locals that the two nested \<open>forEach\<close> loops of \<open>search\<close> update: the result array
  and the three counters.
\<close>

record SearchLoop =
  loopResults :: "SearchResult list"
  loopExact :: nat
  loopPartial :: nat
  loopFuzzy :: nat

definition hasKind :: "MatchKind \<Rightarrow> SearchResult \<Rightarrow> bool" where
  "hasKind k r = list_ex (\<lambda>m. matchType m = k) (matches r)"

definition visitEntry ::
  "(string \<Rightarrow> string) \<Rightarrow> SearchQuery \<Rightarrow> int \<Rightarrow> ChartData \<Rightarrow> ChartEntry \<Rightarrow> SearchLoop
     \<Rightarrow> SearchLoop" where
  "visitEntry lower q now ch e st =
     (case scoreEntry lower e ch q now of
        None \<Rightarrow> st
      | Some r \<Rightarrow>
          if score r > 0 then
            (let st1 = st\<lparr>loopResults := loopResults st @ [r]\<rparr>
             in if hasKind Exact r then st1\<lparr>loopExact := loopExact st1 + 1\<rparr>
                else if hasKind Partial r then st1\<lparr>loopPartial := loopPartial st1 + 1\<rparr>
                else if hasKind Fuzzy r then st1\<lparr>loopFuzzy := loopFuzzy st1 + 1\<rparr>
                else st1)
          else st)"

definition visitChart ::
  "(string \<Rightarrow> string) \<Rightarrow> SearchQuery \<Rightarrow> int \<Rightarrow> ChartData \<Rightarrow> SearchLoop \<Rightarrow> SearchLoop" where
  "visitChart lower q now ch st = fold (visitEntry lower q now ch) (entries ch) st"

definition searchLoop ::
  "(string \<Rightarrow> string) \<Rightarrow> SearchEngine \<Rightarrow> SearchQuery \<Rightarrow> int \<Rightarrow> SearchLoop" where
  "searchLoop lower eng q now =
     fold (visitChart lower q now) (getRelevantCharts eng q)
       \<lparr>loopResults = [], loopExact = 0, loopPartial = 0, loopFuzzy = 0\<rparr>"

text \<open>
  \<open>results.sort((a, b) => b.score - a.score)\<close>: the library's sort is stable, so the
  result is the stable sort by descending score.
\<close>

definition sortByScore :: "SearchResult list \<Rightarrow> SearchResult list" where
  "sortByScore rs = sort_key (\<lambda>r. - score r) rs"

text \<open>\<open>xs.slice(0, n)\<close> for an integer \<open>n\<close>; a negative \<open>n\<close> counts from the end.\<close>

definition slice0 :: "'a list \<Rightarrow> int \<Rightarrow> 'a list" where
  "slice0 xs n = (if n < 0 then take (nat (int (length xs) + n)) xs else take (nat n) xs)"

text \<open>
  \<open>search\<close> returns the pair of \<open>results\<close> and \<open>stats\<close>. It reads the engine and has no
  statement that writes to it. All clock readings within one call are taken to be the same
  instant \<open>now\<close>.
\<close>

definition search ::
  "(string \<Rightarrow> string) \<Rightarrow> SearchEngine \<Rightarrow> SearchQuery \<Rightarrow> int
     \<Rightarrow> SearchResult list \<times> SearchStats" where
  "search lower eng q now =
     (let startTime = now;
          st = searchLoop lower eng q now;
          sorted = sortByScore (loopResults st);
          limitedResults = (if truthyNum (qlimit q) then slice0 sorted (the (qlimit q)) else sorted);
          stats = \<lparr>totalResults = length limitedResults,
                   searchTime = now - startTime,
                   chartsSearched =
                     length (remdups (map (\<lambda>ch. (source ch, chartType ch)) (getRelevantCharts eng q))),
                   exactMatches = loopExact st,
                   partialMatches = loopPartial st,
                   fuzzyMatches = loopFuzzy st\<rparr>
      in (limitedResults, stats))"

text \<open>
  What one entry, and one chart, contribute to the result array: the entry's result when
  \<open>scoreEntry\<close> gives one with a positive score.
\<close>

definition entryResult ::
  "(string \<Rightarrow> string) \<Rightarrow> SearchQuery \<Rightarrow> int \<Rightarrow> ChartData \<Rightarrow> ChartEntry
     \<Rightarrow> SearchResult list" where
  "entryResult lower q now ch e =
     (case scoreEntry lower e ch q now of
        None \<Rightarrow> []
      | Some r \<Rightarrow> if score r > 0 then [r] else [])"

definition chartResults ::
  "(string \<Rightarrow> string) \<Rightarrow> SearchQuery \<Rightarrow> int \<Rightarrow> ChartData \<Rightarrow> SearchResult list" where
  "chartResults lower q now ch = concat (map (entryResult lower q now ch) (entries ch))"

section \<open>ChartCache.ts\<close>

record CacheItem =
  data :: ChartData
  timestamp :: int
  ttl :: int

record CacheOptions =
  ttlOption :: int
  maxSize :: int
  persistent :: bool

text \<open>
  \<open>localStorage\<close> is \<open>None\<close> where \<open>typeof localStorage === 'undefined'\<close>, and else the
  stored pairs in the order in which \<open>Object.keys\<close> lists them (a new name last).
  A stored JSON text is represented by the item it parses to; writes to the store are
  taken to succeed. Every operation is given the clock reading \<open>now\<close> of its call
  (\<open>Date.now()\<close>) and returns the new state of the cache. No operation on the in-memory
  map throws, so the \<open>CacheError\<close> of \<open>set\<close> and the logged failure of \<open>get\<close> have no
  branch here.
\<close>

record ChartCache =
  memoryCache :: "(string \<times> CacheItem) list"
  options :: CacheOptions
  localStorage :: "(string \<times> CacheItem) list option"

definition storagePrefix :: string where
  "storagePrefix = ''brickcharts-''"

definition storageKey :: "string \<Rightarrow> string" where
  "storageKey key = storagePrefix @ key"

definition isExpired :: "CacheItem \<Rightarrow> int \<Rightarrow> bool" where
  "isExpired item now = (now - timestamp item > ttl item)"

text \<open>The scan of \<open>evictOldest\<close>: the running \<open>(oldestKey, oldestTime)\<close>.\<close>

definition oldestStep :: "string \<times> CacheItem \<Rightarrow> string option \<times> int \<Rightarrow> string option \<times> int" where
  "oldestStep kv acc =
     (if timestamp (snd kv) < snd acc then (Some (fst kv), timestamp (snd kv)) else acc)"

definition evictOldest :: "(string \<times> CacheItem) list \<Rightarrow> int \<Rightarrow> (string \<times> CacheItem) list" where
  "evictOldest mem now =
     (let oldestKey = fst (fold oldestStep mem (None, now))
      in if truthyStr oldestKey then AList.delete (the oldestKey) mem else mem)"

definition saveToStorage :: "ChartCache \<Rightarrow> string \<Rightarrow> CacheItem \<Rightarrow> ChartCache" where
  "saveToStorage c key item =
     (case localStorage c of
        None \<Rightarrow> c
      | Some st \<Rightarrow> c\<lparr>localStorage := Some (AList.update (storageKey key) item st)\<rparr>)"

text \<open>
  \<open>loadFromStorage(key?)\<close>. With a non-empty key it reads the one item. With no key, and
  also with the empty string, which \<open>if (key)\<close> takes for no key, it loads every stored
  item: for each stored name that starts with the prefix it strips the prefix
  (\<open>replace\<close> removes the first occurrence, which is the leading one), calls itself with
  the rest, puts an unexpired item into memory, and in the end returns null. A stored
  name that is the bare prefix makes it call itself with the empty string again, on the
  same store; that recursion has no end (an engine with a bounded call stack breaks it off
  with a \<open>RangeError\<close>, which is outside this model), so the function is given fuel,
  one unit for every such re-entry, and \<open>None\<close> says that the fuel did not suffice.
\<close>

fun loadFromStorage ::
    "nat \<Rightarrow> ChartCache \<Rightarrow> string \<Rightarrow> int \<Rightarrow> (CacheItem option \<times> ChartCache) option"
  and loadEach :: "nat \<Rightarrow> string list \<Rightarrow> ChartCache \<Rightarrow> int \<Rightarrow> ChartCache option"
where
  "loadFromStorage 0 c key now =
     (case localStorage c of
        None \<Rightarrow> Some (None, c)
      | Some st \<Rightarrow> if key \<noteq> [] then Some (map_of st (storageKey key), c) else None)"
| "loadFromStorage (Suc n) c key now =
     (case localStorage c of
        None \<Rightarrow> Some (None, c)
      | Some st \<Rightarrow>
          if key \<noteq> [] then Some (map_of st (storageKey key), c)
          else (case loadEach n
                       (filter (\<lambda>k. take (length storagePrefix) k = storagePrefix) (map fst st))
                       c now of
                  None \<Rightarrow> None
                | Some c1 \<Rightarrow> Some (None, c1)))"
| "loadEach n [] c now = Some c"
| "loadEach n (name # names) c now =
     (let key = drop (length storagePrefix) name
      in case loadFromStorage n c key now of
           None \<Rightarrow> None
         | Some (item, c1) \<Rightarrow>
             loadEach n names
               (case item of
                  None \<Rightarrow> c1
                | Some it \<Rightarrow>
                    if \<not> isExpired it now
                    then c1\<lparr>memoryCache := AList.update key it (memoryCache c1)\<rparr>
                    else c1)
               now)"

definition cache_set :: "ChartCache \<Rightarrow> string \<Rightarrow> ChartData \<Rightarrow> int \<Rightarrow> ChartCache" where
  "cache_set c key d now =
     (let item = \<lparr>data = d, timestamp = now, ttl = ttlOption (options c)\<rparr>;
          mem1 = (if int (length (memoryCache c)) \<ge> maxSize (options c)
                  then evictOldest (memoryCache c) now else memoryCache c);
          c1 = c\<lparr>memoryCache := AList.update key item mem1\<rparr>
      in if persistent (options c) then saveToStorage c1 key item else c1)"

definition cache_delete :: "ChartCache \<Rightarrow> string \<Rightarrow> ChartCache" where
  "cache_delete c key =
     (let c1 = c\<lparr>memoryCache := AList.delete key (memoryCache c)\<rparr>
      in if persistent (options c) then
           (case localStorage c of
              None \<Rightarrow> c1
            | Some st \<Rightarrow> c1\<lparr>localStorage := Some (AList.delete (storageKey key) st)\<rparr>)
         else c1)"

text \<open>
  The first half of \<open>get\<close>: the item in memory, or else (when persistent) the item loaded
  from the store, which is then put into memory. \<open>get\<close> and its first half take the fuel
  of \<open>loadFromStorage\<close>; \<open>None\<close> says that the call does not return.
\<close>

definition fetchItem ::
  "nat \<Rightarrow> ChartCache \<Rightarrow> string \<Rightarrow> int \<Rightarrow> (CacheItem option \<times> ChartCache) option" where
  "fetchItem fuel c key now =
     (case map_of (memoryCache c) key of
        Some item \<Rightarrow> Some (Some item, c)
      | None \<Rightarrow>
          if persistent (options c) then
            (case loadFromStorage fuel c key now of
               None \<Rightarrow> None
             | Some (Some loadedItem, c1) \<Rightarrow>
                 Some (Some loadedItem,
                       c1\<lparr>memoryCache := AList.update key loadedItem (memoryCache c1)\<rparr>)
             | Some (None, c1) \<Rightarrow> Some (None, c1))
          else Some (None, c))"

definition cache_get ::
  "nat \<Rightarrow> ChartCache \<Rightarrow> string \<Rightarrow> int \<Rightarrow> (ChartData option \<times> ChartCache) option" where
  "cache_get fuel c key now =
     (case fetchItem fuel c key now of
        None \<Rightarrow> None
      | Some (None, c1) \<Rightarrow> Some (None, c1)
      | Some (Some item, c1) \<Rightarrow>
          if isExpired item now then Some (None, cache_delete c1 key)
          else Some (Some (data item), c1))"

text \<open>A sequence of \<open>set\<close> calls, each with its key, its value and its clock reading.\<close>

definition setAll :: "ChartCache \<Rightarrow> (string \<times> ChartData \<times> int) list \<Rightarrow> ChartCache" where
  "setAll c calls = fold (\<lambda>(key, d, now) c. cache_set c key d now) calls c"

record CacheStats =
  totalItems :: nat
  validItems :: nat
  expiredItems :: nat
  statsMaxSize :: int
  statsPersistent :: bool
  statsTtl :: int

definition getStats :: "ChartCache \<Rightarrow> int \<Rightarrow> CacheStats" where
  "getStats c now =
     (let counts = fold (\<lambda>kv (expired, valid).
                      if isExpired (snd kv) now then (expired + 1, valid)
                      else (expired, valid + 1))
                    (memoryCache c) (0, 0)
      in \<lparr>totalItems = length (memoryCache c),
          validItems = snd counts,
          expiredItems = fst counts,
          statsMaxSize = maxSize (options c),
          statsPersistent = persistent (options c),
          statsTtl = ttlOption (options c)\<rparr>)"

section \<open>Example data\<close>

text \<open>
  Two lowering functions for the examples. On a string of ASCII characters
  \<open>String.prototype.toLowerCase\<close> is \<open>lowerASCII\<close>: it maps \<open>A\<close> to \<open>Z\<close> to \<open>a\<close> to
  \<open>z\<close> and keeps every other ASCII character. On a string of UTF-16 code units that are
  ASCII or U+0130 (capital I with dot above) it is \<open>lowerDotted\<close>: U+0130 is lowered to
  the two code units U+0069 U+0307.
\<close>

definition lowerASCII :: "string \<Rightarrow> string" where
  "lowerASCII s =
     map (\<lambda>c. case map_of (zip ''ABCDEFGHIJKLMNOPQRSTUVWXYZ'' ''abcdefghijklmnopqrstuvwxyz'') c of
                Some l \<Rightarrow> l | None \<Rightarrow> c) s"

definition lowerDotted :: "nat list \<Rightarrow> nat list" where
  "lowerDotted s =
     concat (map (\<lambda>u. if u = 304 then [105, 775]
                        else if 65 \<le> u \<and> u \<le> 90 then [u + 32] else [u]) s)"

text \<open>The chart of the test suite and a query with no field set.\<close>

definition loveStory :: ChartEntry where
  "loveStory = \<lparr>rank = 1, title = ''Love Story'', artist = ''Taylor Swift'', album = None,
     label = None, lastWeek = None, peakPosition = None, weeksOnChart = None,
     chartDate = 0, entrySource = BILLBOARD\<rparr>"

definition blankSpace :: ChartEntry where
  "blankSpace = loveStory\<lparr>rank := 2, title := ''Blank Space''\<rparr>"

definition godsPlan :: ChartEntry where
  "godsPlan = loveStory\<lparr>rank := 3, title := ''Gods Plan'', artist := ''Drake''\<rparr>"

definition hot100 :: ChartData where
  "hot100 = \<lparr>chartType = ''hot-100'', date = 0, entries = [loveStory, blankSpace, godsPlan],
     source = BILLBOARD, totalEntries = 3\<rparr>"

definition emptyQuery :: SearchQuery where
  "emptyQuery = \<lparr>qtitle = None, qartist = None, qalbum = None, qchartType = None,
     qsource = None, qdateRange = None, qrankRange = None, qweeksRange = None,
     qpeakRange = None, qnewEntriesOnly = None, qfuzzy = None, qlimit = None\<rparr>"

text \<open>An engine that has indexed the chart.\<close>

definition emptyEngine :: SearchEngine where
  "emptyEngine = \<lparr>searchIndex = [], chartDataCache = []\<rparr>"

definition demoEngine :: SearchEngine where
  "demoEngine = indexChartData lowerASCII emptyEngine [hot100]"

text \<open>
  An empty cache that holds at most one entry; a cache with one entry that has outlived
  its time to live at the instant 2000 and one that has not; and a persistent cache whose
  memory is empty and whose store holds these two entries.
\<close>

definition demoCache :: ChartCache where
  "demoCache = \<lparr>memoryCache = [],
     options = \<lparr>ttlOption = 3600000, maxSize = 1, persistent = False\<rparr>,
     localStorage = None\<rparr>"

definition staleCache :: ChartCache where
  "staleCache = \<lparr>memoryCache = [(''old'', \<lparr>data = hot100, timestamp = 1000, ttl = 10\<rparr>),
                                 (''new'', \<lparr>data = hot100, timestamp = 1990, ttl = 10\<rparr>)],
     options = \<lparr>ttlOption = 10, maxSize = 100, persistent = False\<rparr>,
     localStorage = None\<rparr>"

definition storedCache :: ChartCache where
  "storedCache = \<lparr>memoryCache = [],
     options = \<lparr>ttlOption = 3600000, maxSize = 100, persistent = True\<rparr>,
     localStorage = Some [(''brickcharts-old'', \<lparr>data = hot100, timestamp = 1000, ttl = 10\<rparr>),
                          (''brickcharts-new'', \<lparr>data = hot100, timestamp = 1990, ttl = 10\<rparr>)]\<rparr>"

section \<open>Substring containment\<close>

text \<open>\<open>str_includes\<close> decides contiguous containment.\<close>

lemma includes_iff: "str_includes t q \<longleftrightarrow> (\<exists>p s. t = p @ q @ s)"
proof (induction t)
  case Nil
  then show ?case by auto
next
  case (Cons x xs)
  show ?case
  proof
    assume "str_includes (x # xs) q"
    then consider "take (length q) (x # xs) = q" | "str_includes xs q" by auto
    then show "\<exists>p s. x # xs = p @ q @ s"
    proof cases
      case 1
      then have "x # xs = [] @ q @ drop (length q) (x # xs)"
        by (metis append_Nil append_take_drop_id)
      then show ?thesis by blast
    next
      case 2
      then obtain p s where "xs = p @ q @ s" using Cons.IH by auto
      then have "x # xs = (x # p) @ q @ s" by simp
      then show ?thesis by blast
    qed
  next
    assume "\<exists>p s. x # xs = p @ q @ s"
    then obtain p s where ps: "x # xs = p @ q @ s" by auto
    show "str_includes (x # xs) q"
    proof (cases p)
      case Nil
      with ps have "x # xs = q @ s" by simp
      then have "take (length q) (x # xs) = q" by (metis append_eq_conv_conj)
      then show ?thesis by simp
    next
      case (Cons a p2)
      then have "xs = p2 @ q @ s" using ps by simp
      then show ?thesis using Cons.IH by auto
    qed
  qed
qed


section \<open>The matrix of calculateSimilarity holds Levenshtein distances\<close>

subsection \<open>Properties of the distance\<close>


lemma lev_Nil2 [simp]: "levenshtein xs [] = length xs"
  by (cases xs) auto

lemma lev_sym: "levenshtein xs ys = levenshtein ys xs"
  by (induction xs ys rule: levenshtein.induct) (auto simp: min.commute min.left_commute)

lemma lev_le_max: "levenshtein xs ys \<le> max (length xs) (length ys)"
  by (induction xs ys rule: levenshtein.induct) auto

lemma lev_single:
  "levenshtein [x] ys = (if x \<in> set ys then length ys - 1 else max 1 (length ys))"
proof (induction ys)
  case Nil
  then show ?case by simp
next
  case (Cons y ys)
  then show ?case by (cases ys) auto
qed

lemma lev_single_snoc:
  "levenshtein [x] (ys @ [y]) =
     (if x = y then length ys
      else 1 + min (length ys) (min (levenshtein [x] ys) (Suc (length ys))))"
  by (cases ys) (auto simp: lev_single dest: length_pos_if_in_set)

lemma lev_snoc:
  "levenshtein (xs @ [x]) (ys @ [y]) =
     (if x = y then levenshtein xs ys
      else 1 + min (levenshtein xs ys)
                 (min (levenshtein (xs @ [x]) ys) (levenshtein xs (ys @ [y]))))"
proof (induction xs ys rule: levenshtein.induct)
  case (1 ys)
  show ?case using lev_single_snoc[of x ys y] by simp
next
  case (2 a xs)
  have "levenshtein ((a # xs) @ [x]) [y] = levenshtein [y] ((a # xs) @ [x])"
    by (rule lev_sym)
  also have "\<dots> = (if y = x then length (a # xs)
      else 1 + min (length (a # xs)) (min (levenshtein [y] (a # xs)) (Suc (length (a # xs)))))"
    by (rule lev_single_snoc)
  also have "levenshtein [y] (a # xs) = levenshtein (a # xs) [y]"
    by (rule lev_sym)
  finally show ?case
    by (auto simp del: levenshtein.simps)
next
  case (3 a xs b ys)
  show ?case
  proof (cases "a = b")
    case True
    with 3 show ?thesis by simp
  next
    case False
    note IH = 3(2-4)[OF False, unfolded append_Cons]
    show ?thesis
    proof (cases "x = y")
      case True
      with False IH show ?thesis by simp
    next
      case xy: False
      have lhs: "levenshtein (a # xs @ [x]) (b # ys @ [y]) =
           Suc (min (levenshtein (xs @ [x]) (ys @ [y]))
             (min (levenshtein (a # xs @ [x]) (ys @ [y]))
                  (levenshtein (xs @ [x]) (b # ys @ [y]))))"
        using False by simp
      have r1: "levenshtein (a # xs) (b # ys) =
           Suc (min (levenshtein xs ys)
             (min (levenshtein (a # xs) ys) (levenshtein xs (b # ys))))"
        using False by simp
      have r2: "levenshtein (a # xs @ [x]) (b # ys) =
           Suc (min (levenshtein (xs @ [x]) ys)
             (min (levenshtein (a # xs @ [x]) ys) (levenshtein (xs @ [x]) (b # ys))))"
        using False by simp
      have r3: "levenshtein (a # xs) (b # ys @ [y]) =
           Suc (min (levenshtein xs (ys @ [y]))
             (min (levenshtein (a # xs) (ys @ [y])) (levenshtein xs (b # ys @ [y]))))"
        using False by simp
      show ?thesis
        using xy
        by (simp only: append_Cons lhs IH r1 r2 r3 if_False plus_1_eq_Suc
              min_Suc_Suc[symmetric] min.assoc min.commute min.left_commute)
    qed
  qed
qed

lemma lev_rev: "levenshtein (rev xs) (rev ys) = levenshtein xs ys"
  by (induction xs ys rule: levenshtein.induct) (simp_all add: lev_snoc)


text \<open>
  \<open>levenshtein xs ys\<close> edits are enough to turn \<open>xs\<close> into \<open>ys\<close>, and no fewer are.
\<close>

lemma lev_cons_bounds:
  "levenshtein xs ys \<le> Suc (levenshtein (a # xs) ys)
   \<and> levenshtein (a # xs) ys \<le> Suc (levenshtein xs ys)"
proof (induction "length xs + length ys" arbitrary: xs ys a rule: less_induct)
  case less
  show ?case
  proof (cases ys)
    case Nil
    then show ?thesis by simp
  next
    case (Cons y ys')
    have "levenshtein ys' xs \<le> Suc (levenshtein (y # ys') xs)
        \<and> levenshtein (y # ys') xs \<le> Suc (levenshtein ys' xs)"
      using less[of ys' xs y] Cons by simp
    then have A: "levenshtein xs ys' \<le> Suc (levenshtein xs (y # ys'))"
        "levenshtein xs (y # ys') \<le> Suc (levenshtein xs ys')"
      using lev_sym[of ys' xs] lev_sym[of "y # ys'" xs] by simp_all
    have B: "levenshtein xs ys' \<le> Suc (levenshtein (a # xs) ys')"
      using less[of xs ys' a] Cons by simp
    show ?thesis
    proof (cases "a = y")
      case True
      then show ?thesis
        using A Cons by simp
    next
      case False
      then have "levenshtein (a # xs) (y # ys')
          = Suc (min (levenshtein xs ys')
                  (min (levenshtein (a # xs) ys') (levenshtein xs (y # ys'))))"
        by simp
      then show ?thesis
        unfolding Cons using A B by linarith
    qed
  qed
qed

lemma editSteps_insert_all: "editSteps (length ys) [] ys"
  by (induction ys) (auto intro: editSteps.intros)

lemma editSteps_delete_all: "editSteps (length xs) xs []"
  by (induction xs) (auto intro: editSteps.intros)

lemma levenshtein_achieved: "editSteps (levenshtein xs ys) xs ys"
proof (induction xs ys rule: levenshtein.induct)
  case (1 ys)
  show ?case by (simp add: editSteps_insert_all)
next
  case (2 x xs)
  show ?case using editSteps_delete_all[of "x # xs"] by simp
next
  case (3 x xs y ys)
  show ?case
  proof (cases "x = y")
    case True
    then show ?thesis
      using 3(1) by (simp add: editSteps.keep)
  next
    case False
    let ?a = "levenshtein xs ys"
    let ?b = "levenshtein (x # xs) ys"
    let ?c = "levenshtein xs (y # ys)"
    have v: "levenshtein (x # xs) (y # ys) = Suc (min ?a (min ?b ?c))"
      using False by simp
    consider "min ?a (min ?b ?c) = ?a" | "min ?a (min ?b ?c) = ?b" | "min ?a (min ?b ?c) = ?c"
      by linarith
    then show ?thesis
    proof cases
      case 1
      then show ?thesis
        unfolding v using 3(2)[OF False] by (simp add: editSteps.substitute)
    next
      case 2
      then show ?thesis
        unfolding v using 3(3)[OF False] by (simp add: editSteps.insert)
    next
      case 3
      then show ?thesis
        unfolding v using "3.IH"(4)[OF False] by (simp add: editSteps.delete)
    qed
  qed
qed

lemma levenshtein_least: "editSteps n xs ys \<Longrightarrow> levenshtein xs ys \<le> n"
proof (induction rule: editSteps.induct)
  case stop
  show ?case by simp
next
  case (keep n xs ys a)
  then show ?case by simp
next
  case (substitute n xs ys a b)
  then show ?case by (cases "a = b") simp_all
next
  case (delete n xs ys a)
  then show ?case
    using lev_cons_bounds[of xs ys a] by simp
next
  case (insert n xs ys b)
  have "levenshtein xs (b # ys) = levenshtein (b # ys) xs"
    by (rule lev_sym)
  also have "\<dots> \<le> Suc (levenshtein ys xs)"
    using lev_cons_bounds[of ys xs b] by simp
  also have "levenshtein ys xs = levenshtein xs ys"
    by (rule lev_sym)
  finally show ?case
    using insert.IH by simp
qed

subsection \<open>The loops\<close>

lemma levCell_0_right: "i \<le> length str2 \<Longrightarrow> levCell str1 str2 i 0 = i"
  by (simp add: levCell_def)

lemma levCell_0_left: "j \<le> length str1 \<Longrightarrow> levCell str1 str2 0 j = j"
  by (simp add: levCell_def)

lemma levCell_Suc:
  assumes "i < length str2" "j < length str1"
  shows "levCell str1 str2 (Suc i) (Suc j) =
     (if str2 ! i = str1 ! j then levCell str1 str2 i j
      else 1 + min (levCell str1 str2 i j)
                 (min (levCell str1 str2 (Suc i) j) (levCell str1 str2 i (Suc j))))"
  using assms by (simp add: levCell_def take_Suc_conv_app_nth)

lemma initFirstRow_fold:
  assumes "m ! 0 = [0]" "0 < length m"
  shows "fold (\<lambda>j m. m[0 := js_store (m ! 0) j j]) [0..<Suc n] m = m[0 := [0..<Suc n]]"
proof (induction n)
  case 0
  show ?case using assms by (simp add: js_store_def list_update_same_conv)
next
  case (Suc n)
  have "fold (\<lambda>j m. m[0 := js_store (m ! 0) j j]) [0..<Suc (Suc n)] m
      = (\<lambda>m. m[0 := js_store (m ! 0) (Suc n) (Suc n)])
          (fold (\<lambda>j m. m[0 := js_store (m ! 0) j j]) [0..<Suc n] m)"
    by (simp only: upt_Suc_append[of 0 "Suc n"] fold_append o_apply fold.simps id_apply le0)
  also have "\<dots> = m[0 := [0..<Suc (Suc n)]]"
  proof -
    have "[0..<Suc n] @ [Suc n] = [0..<Suc (Suc n)]"
      by simp
    then have "(m[0 := [0..<Suc n]])[0 := js_store (m[0 := [0..<Suc n]] ! 0) (Suc n) (Suc n)]
        = m[0 := [0..<Suc (Suc n)]]"
      using assms(2) by (simp add: js_store_def del: upt_Suc)
    then show ?thesis by (simp only: Suc.IH)
  qed
  finally show ?case .
qed

lemma initFirstRow_done:
  "rowsDone str1 str2 0 (initFirstRow (length str1) (initRows (length str2)))"
proof -
  let ?m = "initRows (length str2)"
  have m0: "?m ! 0 = [0]" "0 < length ?m"
    by (simp_all add: initRows_def nth_Cons' upt_conv_Cons del: upt_Suc)
  have eq: "initFirstRow (length str1) ?m = ?m[0 := [0..<Suc (length str1)]]"
    unfolding initFirstRow_def by (rule initFirstRow_fold[OF m0])
  have rows: "\<And>i. i \<le> length str2 \<Longrightarrow> ?m ! i = [i]"
    unfolding initRows_def by (simp del: upt_Suc add: nth_map_upt)
  have r0: "map (levCell str1 str2 0) [0..<Suc (length str1)] = [0..<Suc (length str1)]"
    by (rule map_idI) (auto simp add: levCell_0_left)
  show ?thesis
    unfolding rowsDone_def eq
    by (auto simp del: upt_Suc simp add: rows r0 initRows_def nth_list_update)
qed


lemma fillRow_fold:
  assumes inv: "rowsDone str1 str2 i m" and i: "i < length str2" and J: "J \<le> length str1"
  shows "fold (\<lambda>j m. m[Suc i := js_store (m ! Suc i) j (cellValue str1 str2 m (Suc i) j)])
           [1..<Suc J] m
         = m[Suc i := map (levCell str1 str2 (Suc i)) [0..<Suc J]]"
  using J
proof (induction J)
  case 0
  have "m ! Suc i = [Suc i]"
    using inv i by (simp add: rowsDone_def)
  then have "m[Suc i := [Suc i]] = m"
    by (metis list_update_id)
  then show ?case
    using i by (simp add: levCell_0_right)
next
  case (Suc J)
  let ?f = "\<lambda>j m. m[Suc i := js_store (m ! Suc i) j (cellValue str1 str2 m (Suc i) j)]"
  let ?row = "map (levCell str1 str2 (Suc i)) [0..<Suc J]"
  let ?m1 = "m[Suc i := ?row]"
  have len: "length m = Suc (length str2)"
    using inv by (simp add: rowsDone_def)
  have prev: "m ! i = map (levCell str1 str2 i) [0..<Suc (length str1)]"
    using inv i by (simp add: rowsDone_def)
  have J': "J < length str1" using Suc.prems by simp
  have IH: "fold ?f [1..<Suc J] m = ?m1"
    using Suc.IH J' by simp
  have rowi: "?m1 ! Suc i = ?row"
    using len i by simp
  have rowp: "?m1 ! i = m ! i"
    by simp
  have c1: "?m1 ! i ! J = levCell str1 str2 i J"
    using J' by (simp only: rowp prev nth_map_upt) (simp add: nth_map_upt del: upt_Suc)
  have c2: "?m1 ! Suc i ! J = levCell str1 str2 (Suc i) J"
    by (simp only: rowi) (simp add: nth_map_upt del: upt_Suc)
  have c3: "?m1 ! i ! Suc J = levCell str1 str2 i (Suc J)"
    using J' by (simp only: rowp prev) (simp add: nth_map_upt del: upt_Suc)
  have cv: "cellValue str1 str2 ?m1 (Suc i) (Suc J) = levCell str1 str2 (Suc i) (Suc J)"
    unfolding cellValue_def
    by (simp only: diff_Suc_1 c1 c2 c3 levCell_Suc[OF i J'])
       (simp add: min.commute min.left_commute)
  have "fold ?f [1..<Suc (Suc J)] m = ?f (Suc J) (fold ?f [1..<Suc J] m)"
    by (simp only: upt_Suc_append[of 1 "Suc J"] fold_append o_apply fold.simps id_apply)
  also have "\<dots> = ?f (Suc J) ?m1"
    by (simp only: IH)
  also have "\<dots> = ?m1[Suc i := ?row @ [levCell str1 str2 (Suc i) (Suc J)]]"
    by (simp only: rowi cv) (simp add: js_store_def del: upt_Suc)
  also have "\<dots> = m[Suc i := map (levCell str1 str2 (Suc i)) [0..<Suc (Suc J)]]"
    by simp
  finally show ?case .
qed


lemma fillRow_done:
  assumes "rowsDone str1 str2 i m" "i < length str2"
  shows "rowsDone str1 str2 (Suc i) (fillRow str1 str2 (Suc i) m)"
proof -
  have eq: "fillRow str1 str2 (Suc i) m
      = m[Suc i := map (levCell str1 str2 (Suc i)) [0..<Suc (length str1)]]"
    unfolding fillRow_def by (rule fillRow_fold[OF assms order_refl])
  show ?thesis
    using assms unfolding eq rowsDone_def
    by (auto simp del: upt_Suc simp add: nth_list_update)
qed

lemma fillMatrix_fold:
  "k \<le> length str2 \<Longrightarrow>
   rowsDone str1 str2 k
     (fold (fillRow str1 str2) [1..<Suc k]
        (initFirstRow (length str1) (initRows (length str2))))"
proof (induction k)
  case 0
  show ?case by (simp add: initFirstRow_done)
next
  case (Suc k)
  have "fold (fillRow str1 str2) [1..<Suc (Suc k)]
          (initFirstRow (length str1) (initRows (length str2)))
      = fillRow str1 str2 (Suc k)
          (fold (fillRow str1 str2) [1..<Suc k]
             (initFirstRow (length str1) (initRows (length str2))))"
    by (simp only: upt_Suc_append[of 1 "Suc k"] fold_append o_apply fold.simps id_apply)
  then show ?case
    using Suc fillRow_done[of str1 str2 k] by simp
qed

lemma fillMatrix_distance:
  "fillMatrix str1 str2 ! length str2 ! length str1 = levenshtein str1 str2"
proof -
  have "rowsDone str1 str2 (length str2) (fillMatrix str1 str2)"
    unfolding fillMatrix_def by (rule fillMatrix_fold) simp
  then have "fillMatrix str1 str2 ! length str2
      = map (levCell str1 str2 (length str2)) [0..<Suc (length str1)]"
    by (simp add: rowsDone_def)
  then have "fillMatrix str1 str2 ! length str2 ! length str1
      = levCell str1 str2 (length str2) (length str1)"
    by (simp add: nth_map_upt del: upt_Suc)
  also have "\<dots> = levenshtein str2 str1"
    by (simp add: levCell_def lev_rev)
  finally show ?thesis by (simp add: lev_sym)
qed

lemma calculateSimilarity_levenshtein:
  "calculateSimilarity str1 str2 = levenshteinSimilarity str1 str2"
  by (simp add: calculateSimilarity_def levenshteinSimilarity_def Let_def fillMatrix_distance)

section \<open>matchText and calculateSimilarity\<close>

text \<open>
  Claim C5, as amended. For every lowering function, all strings \<open>text\<close> and \<open>query\<close>:
  \<open>matchText\<close> returns an exact match with confidence 1 when the two are equal after
  lowercasing; otherwise a partial match, with confidence the length of the lowercased
  query over the length of the lowercased text, when the lowercased text contains the
  lowercased query; otherwise, when fuzzy is enabled, a fuzzy match whose confidence is the
  normalised Levenshtein similarity of the two lowercased strings, exactly when that
  similarity exceeds 0.6; and no match in every other case. The similarity of two empty
  strings is 1.
\<close>

theorem matchText_cases:
  "matchText (lower :: 'a list \<Rightarrow> 'a list) text query fz =
     (if lower text = lower query
        then Some \<lparr>matchType = Exact, confidence = 1\<rparr>
      else if (\<exists>p s. lower text = p @ lower query @ s)
        then Some \<lparr>matchType = Partial,
                   confidence = real (length (lower query)) / real (length (lower text))\<rparr>
      else if fz \<and> levenshteinSimilarity (lower text) (lower query) > 6 / 10
        then Some \<lparr>matchType = Fuzzy,
                   confidence = levenshteinSimilarity (lower text) (lower query)\<rparr>
      else None)
   \<and> calculateSimilarity ([] :: 'a list) [] = 1"
proof -
  have sim: "calculateSimilarity (lower text) (lower query)
      = levenshteinSimilarity (lower text) (lower query)"
    by (rule calculateSimilarity_levenshtein)
  have empty: "calculateSimilarity ([] :: 'a list) [] = 1"
    by (simp add: calculateSimilarity_levenshtein levenshteinSimilarity_def)
  have "matchText lower text query fz =
     (if lower text = lower query
        then Some \<lparr>matchType = Exact, confidence = 1\<rparr>
      else if (\<exists>p s. lower text = p @ lower query @ s)
        then Some \<lparr>matchType = Partial,
                   confidence = real (length (lower query)) / real (length (lower text))\<rparr>
      else if fz \<and> levenshteinSimilarity (lower text) (lower query) > 6 / 10
        then Some \<lparr>matchType = Fuzzy,
                   confidence = levenshteinSimilarity (lower text) (lower query)\<rparr>
      else None)"
    by (simp add: matchText_def Let_def includes_iff sim)
  with empty show ?thesis
    by (rule conjI[rotated])
qed

theorem matchText_cases_witness:
  "matchText lowerASCII ''Love Story'' ''LOVE'' False
     = Some \<lparr>matchType = Partial, confidence = 4 / 10\<rparr>
   \<and> matchText lowerASCII ''Drake'' ''drake'' False = Some \<lparr>matchType = Exact, confidence = 1\<rparr>
   \<and> matchText lowerASCII ''Drake'' ''Drakes'' True
     = Some \<lparr>matchType = Fuzzy, confidence = 5 / 6\<rparr>
   \<and> matchText lowerASCII ''Drake'' ''Blake'' True = None
   \<and> matchText lowerASCII ''Drake'' ''Drakes'' False = None"
proof -
  have lc: "lowerASCII ''Love Story'' = ''love story''" "lowerASCII ''LOVE'' = ''love''"
    "lowerASCII ''Drake'' = ''drake''" "lowerASCII ''drake'' = ''drake''"
    "lowerASCII ''Drakes'' = ''drakes''" "lowerASCII ''Blake'' = ''blake''"
    by (simp_all add: lowerASCII_def)
  have "''love story'' = [] @ ''love'' @ '' story''"
    by simp
  then have ex: "\<exists>p s. ''love story'' = p @ ''love'' @ s"
    by blast
  have no1: "\<not> (\<exists>p s. ''drake'' = p @ ''drakes'' @ s)"
    by (subst includes_iff[symmetric]) simp
  have no2: "\<not> (\<exists>p s. ''drake'' = p @ ''blake'' @ s)"
    by (subst includes_iff[symmetric]) simp
  have s1: "levenshteinSimilarity ''drake'' ''drakes'' = 5 / 6"
    by (simp add: levenshteinSimilarity_def)
  have s2: "levenshteinSimilarity ''drake'' ''blake'' = 3 / 5"
    by (simp add: levenshteinSimilarity_def)
  have a: "matchText lowerASCII ''Love Story'' ''LOVE'' False
      = Some \<lparr>matchType = Partial, confidence = 4 / 10\<rparr>"
    using matchText_cases[of lowerASCII "''Love Story''" "''LOVE''" False] ex by (simp add: lc)
  have b: "matchText lowerASCII ''Drake'' ''drake'' False
      = Some \<lparr>matchType = Exact, confidence = 1\<rparr>"
    using matchText_cases[of lowerASCII "''Drake''" "''drake''" False] by (simp add: lc)
  have c: "matchText lowerASCII ''Drake'' ''Drakes'' True
      = Some \<lparr>matchType = Fuzzy, confidence = 5 / 6\<rparr>"
    using matchText_cases[of lowerASCII "''Drake''" "''Drakes''" True] no1 by (simp add: lc s1)
  have d: "matchText lowerASCII ''Drake'' ''Blake'' True = None"
    using matchText_cases[of lowerASCII "''Drake''" "''Blake''" True] no2 by (simp add: lc s2)
  have e: "matchText lowerASCII ''Drake'' ''Drakes'' False = None"
    using matchText_cases[of lowerASCII "''Drake''" "''Drakes''" False] no1 by (simp add: lc)
  from a b c d e show ?thesis by simp
qed

text \<open>
  As stated, with the confidence of a partial match the query length over the text length,
  the claim fails where lowercasing changes a length. The text is the one code unit U+0130,
  the query is \<open>i\<close> (U+0069). The lowercased text, U+0069 U+0307, is not the query and
  contains it, so the match is partial with confidence 1/2, the quotient of the
  lowercased lengths; the query length over the text length is 1.
\<close>

theorem matchText_length_counterexample:
  "lowerDotted [304] = [105, 775] \<and> lowerDotted [105] = [105]
   \<and> matchText lowerDotted [304] [105] False
       = Some \<lparr>matchType = Partial, confidence = 1 / 2\<rparr>
   \<and> real (length [105 :: nat]) / real (length [304 :: nat]) = 1"
  by (simp add: matchText_def lowerDotted_def Let_def)

text \<open>
  Claim C10. \<open>calculateSimilarity\<close> is symmetric in its two arguments and its value lies
  between 0 and 1 inclusive.
\<close>

theorem calculateSimilarity_sym_bounds:
  "calculateSimilarity a b = calculateSimilarity b a
   \<and> 0 \<le> calculateSimilarity a b \<and> calculateSimilarity a b \<le> 1"
proof -
  have le: "levenshtein a b \<le> max (length a) (length b)"
    by (rule lev_le_max)
  have sym: "levenshteinSimilarity a b = levenshteinSimilarity b a"
    unfolding levenshteinSimilarity_def
    by (subst lev_sym[of a b]) (simp add: max.commute)
  define m where "m = max (length a) (length b)"
  define d where "d = levenshtein a b"
  have dm: "d \<le> m"
    using le by (simp add: m_def d_def)
  have S: "levenshteinSimilarity a b = (if m = 0 then 1 else (real m - real d) / real m)"
    by (simp add: levenshteinSimilarity_def m_def d_def Let_def)
  have lo: "0 \<le> levenshteinSimilarity a b"
    unfolding S using dm by (cases "m = 0") (auto simp: zero_le_divide_iff)
  have hi: "levenshteinSimilarity a b \<le> 1"
    unfolding S by (cases "m = 0") (auto simp: divide_le_eq_1)
  show ?thesis
    using sym lo hi by (simp add: calculateSimilarity_levenshtein)
qed

theorem calculateSimilarity_sym_bounds_witness:
  "calculateSimilarity ''kitten'' ''sitting'' = calculateSimilarity ''sitting'' ''kitten''
   \<and> 0 \<le> calculateSimilarity ''kitten'' ''sitting''
   \<and> calculateSimilarity ''kitten'' ''sitting'' \<le> 1"
  by (rule calculateSimilarity_sym_bounds)

section \<open>scoreEntry: the range filters\<close>

lemma weeksRange_frame:
  "rankRangeRejects e (q\<lparr>qweeksRange := x\<rparr>) = rankRangeRejects e q"
  "peakRangeRejects e (q\<lparr>qweeksRange := x\<rparr>) = peakRangeRejects e q"
  "newEntriesRejects e (q\<lparr>qweeksRange := x\<rparr>) = newEntriesRejects e q"
  "titleStep lower e (q\<lparr>qweeksRange := x\<rparr>) acc = titleStep lower e q acc"
  "artistStep lower e (q\<lparr>qweeksRange := x\<rparr>) acc = artistStep lower e q acc"
  "albumStep lower e (q\<lparr>qweeksRange := x\<rparr>) acc = albumStep lower e q acc"
  by (simp_all add: rankRangeRejects_def peakRangeRejects_def newEntriesRejects_def
        titleStep_def artistStep_def albumStep_def cong: option.case_cong if_cong)

lemma peakRange_frame:
  "rankRangeRejects e (q\<lparr>qpeakRange := x\<rparr>) = rankRangeRejects e q"
  "weeksRangeRejects e (q\<lparr>qpeakRange := x\<rparr>) = weeksRangeRejects e q"
  "newEntriesRejects e (q\<lparr>qpeakRange := x\<rparr>) = newEntriesRejects e q"
  "titleStep lower e (q\<lparr>qpeakRange := x\<rparr>) acc = titleStep lower e q acc"
  "artistStep lower e (q\<lparr>qpeakRange := x\<rparr>) acc = artistStep lower e q acc"
  "albumStep lower e (q\<lparr>qpeakRange := x\<rparr>) acc = albumStep lower e q acc"
  by (simp_all add: rankRangeRejects_def weeksRangeRejects_def newEntriesRejects_def
        titleStep_def artistStep_def albumStep_def cong: option.case_cong if_cong)

lemma weeksRangeRejects_iff:
  "qweeksRange q = Some r \<Longrightarrow>
   weeksRangeRejects e q \<longleftrightarrow>
     (\<exists>w. weeksOnChart e = Some w \<and> w \<noteq> 0 \<and> (w < rmin r \<or> rmax r < w))"
  by (cases "weeksOnChart e") (simp_all add: weeksRangeRejects_def)

lemma peakRangeRejects_iff:
  "qpeakRange q = Some r \<Longrightarrow>
   peakRangeRejects e q \<longleftrightarrow>
     (\<exists>p. peakPosition e = Some p \<and> p \<noteq> 0 \<and> (p < rmin r \<or> rmax r < p))"
  by (cases "peakPosition e") (simp_all add: peakRangeRejects_def)

lemma scoreEntry_weeksRange:
  assumes "qweeksRange q = Some r"
  shows "scoreEntry lower e ch q now =
     (if \<exists>w. weeksOnChart e = Some w \<and> w \<noteq> 0 \<and> (w < rmin r \<or> rmax r < w) then None
      else scoreEntry lower e ch (q\<lparr>qweeksRange := None\<rparr>) now)"
proof (cases "weeksRangeRejects e q")
  case True
  then have "scoreEntry lower e ch q now = None"
    by (simp add: scoreEntry_def)
  moreover have "\<exists>w. weeksOnChart e = Some w \<and> w \<noteq> 0 \<and> (w < rmin r \<or> rmax r < w)"
    using True weeksRangeRejects_iff[OF assms, of e] by blast
  ultimately show ?thesis
    by (simp only: if_True)
next
  case False
  have off: "\<not> weeksRangeRejects e (q\<lparr>qweeksRange := None\<rparr>)"
    by (simp add: weeksRangeRejects_def)
  have "scoreEntry lower e ch (q\<lparr>qweeksRange := None\<rparr>) now = scoreEntry lower e ch q now"
    unfolding scoreEntry_def weeksRange_frame using False off by simp
  moreover have "\<not> (\<exists>w. weeksOnChart e = Some w \<and> w \<noteq> 0 \<and> (w < rmin r \<or> rmax r < w))"
    using False weeksRangeRejects_iff[OF assms, of e] by blast
  ultimately show ?thesis
    by (simp only: if_False)
qed

lemma scoreEntry_peakRange:
  assumes "qpeakRange q = Some r"
  shows "scoreEntry lower e ch q now =
     (if \<exists>p. peakPosition e = Some p \<and> p \<noteq> 0 \<and> (p < rmin r \<or> rmax r < p) then None
      else scoreEntry lower e ch (q\<lparr>qpeakRange := None\<rparr>) now)"
proof (cases "peakRangeRejects e q")
  case True
  then have "scoreEntry lower e ch q now = None"
    by (simp add: scoreEntry_def)
  moreover have "\<exists>p. peakPosition e = Some p \<and> p \<noteq> 0 \<and> (p < rmin r \<or> rmax r < p)"
    using True peakRangeRejects_iff[OF assms, of e] by blast
  ultimately show ?thesis
    by (simp only: if_True)
next
  case False
  have off: "\<not> peakRangeRejects e (q\<lparr>qpeakRange := None\<rparr>)"
    by (simp add: peakRangeRejects_def)
  have "scoreEntry lower e ch (q\<lparr>qpeakRange := None\<rparr>) now = scoreEntry lower e ch q now"
    unfolding scoreEntry_def peakRange_frame using False off by simp
  moreover have "\<not> (\<exists>p. peakPosition e = Some p \<and> p \<noteq> 0 \<and> (p < rmin r \<or> rmax r < p))"
    using False peakRangeRejects_iff[OF assms, of e] by blast
  ultimately show ?thesis
    by (simp only: if_False)
qed

text \<open>
  Claim C6, as amended. For a query with a \<open>weeksRange\<close> (respectively \<open>peakRange\<close>)
  bound, \<open>scoreEntry\<close> rejects the entry on account of that bound exactly when the entry
  has a non-zero \<open>weeksOnChart\<close> (respectively \<open>peakPosition\<close>) outside the inclusive
  interval; in every other case (the field is missing, is zero, or lies inside) the bound
  has no effect: the result is that of the same query without the bound.
\<close>

theorem range_bound_effect:
  "(qweeksRange q = Some r \<longrightarrow>
      scoreEntry lower e ch q now =
        (if \<exists>w. weeksOnChart e = Some w \<and> w \<noteq> 0 \<and> (w < rmin r \<or> rmax r < w) then None
         else scoreEntry lower e ch (q\<lparr>qweeksRange := None\<rparr>) now))
   \<and> (qpeakRange q = Some r \<longrightarrow>
      scoreEntry lower e ch q now =
        (if \<exists>p. peakPosition e = Some p \<and> p \<noteq> 0 \<and> (p < rmin r \<or> rmax r < p) then None
         else scoreEntry lower e ch (q\<lparr>qpeakRange := None\<rparr>) now))"
  using scoreEntry_weeksRange[of q r lower e ch now] scoreEntry_peakRange[of q r lower e ch now]
  by blast

theorem range_bound_effect_witness:
  "scoreEntry lowerASCII (loveStory\<lparr>weeksOnChart := Some 12\<rparr>) hot100
      (emptyQuery\<lparr>qweeksRange := Some \<lparr>rmin = 1, rmax = 10\<rparr>\<rparr>) 0 = None
   \<and> scoreEntry lowerASCII (loveStory\<lparr>peakPosition := Some 5\<rparr>) hot100
      (emptyQuery\<lparr>qpeakRange := Some \<lparr>rmin = 1, rmax = 10\<rparr>\<rparr>) 0
     = scoreEntry lowerASCII (loveStory\<lparr>peakPosition := Some 5\<rparr>) hot100
         (emptyQuery\<lparr>qpeakRange := None\<rparr>) 0"
  using range_bound_effect[of "emptyQuery\<lparr>qweeksRange := Some \<lparr>rmin = 1, rmax = 10\<rparr>\<rparr>"
          "\<lparr>rmin = 1, rmax = 10\<rparr>" lowerASCII "loveStory\<lparr>weeksOnChart := Some 12\<rparr>" hot100 0]
        range_bound_effect[of "emptyQuery\<lparr>qpeakRange := Some \<lparr>rmin = 1, rmax = 10\<rparr>\<rparr>"
          "\<lparr>rmin = 1, rmax = 10\<rparr>" lowerASCII "loveStory\<lparr>peakPosition := Some 5\<rparr>" hot100 0]
  by (simp add: emptyQuery_def loveStory_def)

text \<open>
  As stated, the claim fails for an entry whose \<open>weeksOnChart\<close> is 0: the entry has the
  value, the value lies outside \<open>[1, 10]\<close>, and the entry is not rejected.
\<close>

theorem range_bound_zero_counterexample:
  "weeksOnChart (loveStory\<lparr>weeksOnChart := Some 0\<rparr>) = Some 0
   \<and> qweeksRange (emptyQuery\<lparr>qweeksRange := Some \<lparr>rmin = 1, rmax = 10\<rparr>\<rparr>)
       = Some \<lparr>rmin = 1, rmax = 10\<rparr>
   \<and> (0::int) < rmin \<lparr>rmin = 1, rmax = 10\<rparr>
   \<and> scoreEntry lowerASCII (loveStory\<lparr>weeksOnChart := Some 0\<rparr>) hot100
         (emptyQuery\<lparr>qweeksRange := Some \<lparr>rmin = 1, rmax = 10\<rparr>\<rparr>) 0 \<noteq> None"
  by (simp add: scoreEntry_def loveStory_def hot100_def emptyQuery_def rankRangeRejects_def
      weeksRangeRejects_def peakRangeRejects_def newEntriesRejects_def titleStep_def
      artistStep_def albumStep_def rankBoost_def recencyBoost_def truthyBool_def truthyNum_def
      truthyStr_def)

section \<open>scoreEntry: the text filters in strict mode\<close>

lemma str_includes_Nil [simp]: "str_includes xs []"
  by (cases xs) simp_all

lemma matchText_empty_query: "lower [] = [] \<Longrightarrow> matchText lower t [] fz \<noteq> None"
  by (simp add: matchText_def Let_def)

lemma artist_frame:
  "rankRangeRejects e (q\<lparr>qartist := x\<rparr>) = rankRangeRejects e q"
  "weeksRangeRejects e (q\<lparr>qartist := x\<rparr>) = weeksRangeRejects e q"
  "peakRangeRejects e (q\<lparr>qartist := x\<rparr>) = peakRangeRejects e q"
  "newEntriesRejects e (q\<lparr>qartist := x\<rparr>) = newEntriesRejects e q"
  "titleStep lower e (q\<lparr>qartist := x\<rparr>) acc = titleStep lower e q acc"
  "albumStep lower e (q\<lparr>qartist := x\<rparr>) acc = albumStep lower e q acc"
  by (simp_all add: rankRangeRejects_def weeksRangeRejects_def peakRangeRejects_def
        newEntriesRejects_def titleStep_def albumStep_def cong: option.case_cong if_cong)

lemma album_frame:
  "rankRangeRejects e (q\<lparr>qalbum := x\<rparr>) = rankRangeRejects e q"
  "weeksRangeRejects e (q\<lparr>qalbum := x\<rparr>) = weeksRangeRejects e q"
  "peakRangeRejects e (q\<lparr>qalbum := x\<rparr>) = peakRangeRejects e q"
  "newEntriesRejects e (q\<lparr>qalbum := x\<rparr>) = newEntriesRejects e q"
  "titleStep lower e (q\<lparr>qalbum := x\<rparr>) acc = titleStep lower e q acc"
  "artistStep lower e (q\<lparr>qalbum := x\<rparr>) acc = artistStep lower e q acc"
  by (simp_all add: rankRangeRejects_def weeksRangeRejects_def peakRangeRejects_def
        newEntriesRejects_def titleStep_def artistStep_def truthyStr_def
        cong: option.case_cong if_cong)

lemma titleStep_miss:
  assumes "lower [] = []"
    and "\<not> truthyBool (qfuzzy q)" "qtitle q = Some t" "matchText lower (title e) t False = None"
  shows "titleStep lower e q acc = None"
proof -
  have "t \<noteq> []"
    using assms(4) matchText_empty_query[of lower, OF assms(1)] by blast
  then show ?thesis
    using assms by (simp add: titleStep_def)
qed

lemma titleStep_absent:
  "\<not> truthyStr (qtitle q) \<Longrightarrow> titleStep lower e q acc = Some acc"
  by (cases "qtitle q") (simp_all add: titleStep_def truthyStr_def)

lemma artistStep_miss:
  assumes "lower [] = []"
    and "\<not> truthyBool (qfuzzy q)" "qartist q = Some a" "matchText lower (artist e) a False = None"
  shows "artistStep lower e q acc = (if truthyStr (qtitle q) then Some acc else None)"
proof -
  have "a \<noteq> []"
    using assms(4) matchText_empty_query[of lower, OF assms(1)] by blast
  then show ?thesis
    using assms by (simp add: artistStep_def)
qed

lemma artistStep_off: "artistStep lower e (q\<lparr>qartist := None\<rparr>) acc = Some acc"
  by (simp add: artistStep_def)

lemma albumStep_miss:
  assumes "qalbum q = Some b"
    and "album e = None \<or> (\<exists>al. album e = Some al \<and> matchText lower al b (truthyBool (qfuzzy q)) = None)"
  shows "albumStep lower e q acc = acc"
  using assms by (auto simp: albumStep_def)

lemma albumStep_off: "albumStep lower e (q\<lparr>qalbum := None\<rparr>) acc = acc"
  by (simp add: albumStep_def)

lemma scoreEntry_title_miss:
  assumes "lower [] = []"
    and "\<not> truthyBool (qfuzzy q)" "qtitle q = Some t" "matchText lower (title e) t False = None"
  shows "scoreEntry lower e ch q now = None"
  by (simp add: scoreEntry_def titleStep_miss[of lower, OF assms])

lemma scoreEntry_artist_miss_rejected:
  assumes "lower [] = []"
    and "\<not> truthyBool (qfuzzy q)" "qartist q = Some a" "matchText lower (artist e) a False = None"
    and "\<not> truthyStr (qtitle q)"
  shows "scoreEntry lower e ch q now = None"
  using assms(5)
  by (simp add: scoreEntry_def titleStep_absent artistStep_miss[of lower, OF assms(1-4)])

lemma scoreEntry_artist_miss_rescued:
  assumes "lower [] = []"
    and "\<not> truthyBool (qfuzzy q)" "qartist q = Some a" "matchText lower (artist e) a False = None"
    and "truthyStr (qtitle q)"
  shows "scoreEntry lower e ch q now = scoreEntry lower e ch (q\<lparr>qartist := None\<rparr>) now"
proof -
  have eq: "artistStep lower e (q\<lparr>qartist := None\<rparr>) = artistStep lower e q"
    using assms(5) by (intro ext) (simp add: artistStep_miss[of lower, OF assms(1-4)] artistStep_off)
  show ?thesis
    unfolding scoreEntry_def artist_frame eq by (rule refl)
qed

lemma scoreEntry_album_miss:
  assumes "qalbum q = Some b"
    and "album e = None \<or> (\<exists>al. album e = Some al \<and> matchText lower al b (truthyBool (qfuzzy q)) = None)"
  shows "scoreEntry lower e ch q now = scoreEntry lower e ch (q\<lparr>qalbum := None\<rparr>) now"
proof -
  have eq: "albumStep lower e (q\<lparr>qalbum := None\<rparr>) = albumStep lower e q"
    by (intro ext) (simp add: albumStep_miss[OF assms] albumStep_off)
  show ?thesis
    unfolding scoreEntry_def album_frame eq by (rule refl)
qed

text \<open>
  Claim C4. Let the lowering function lower the empty string to the empty string, as
  \<open>toLowerCase\<close> does. With fuzzy matching off: a title filter that matches the
  entry's title neither exactly nor as a substring (ignoring case) makes \<open>scoreEntry\<close>
  return null; an artist filter that fails to match makes it return null when the query
  has no (non-empty) title filter, and otherwise changes nothing (the result is that of the
  query without the artist filter); an album filter that fails, or that meets an entry
  without album, changes nothing either.
\<close>

theorem strict_text_filters:
  assumes "lower [] = []"
  shows
  "(\<not> truthyBool (qfuzzy q) \<and> qtitle q = Some t \<and> matchText lower (title e) t False = None
      \<longrightarrow> scoreEntry lower e ch q now = None)
   \<and> (\<not> truthyBool (qfuzzy q) \<and> qartist q = Some a \<and> matchText lower (artist e) a False = None
      \<longrightarrow> (if truthyStr (qtitle q)
           then scoreEntry lower e ch q now = scoreEntry lower e ch (q\<lparr>qartist := None\<rparr>) now
           else scoreEntry lower e ch q now = None))
   \<and> (qalbum q = Some b
       \<and> (album e = None
           \<or> (\<exists>al. album e = Some al \<and> matchText lower al b (truthyBool (qfuzzy q)) = None))
      \<longrightarrow> scoreEntry lower e ch q now = scoreEntry lower e ch (q\<lparr>qalbum := None\<rparr>) now)"
  using scoreEntry_title_miss[of lower, OF assms, of q t e ch now]
        scoreEntry_artist_miss_rejected[of lower, OF assms, of q a e ch now]
        scoreEntry_artist_miss_rescued[of lower, OF assms, of q a e ch now]
        scoreEntry_album_miss[of q b e lower ch now]
  by (cases "truthyStr (qtitle q)") (simp_all only: if_True if_False, blast+)

theorem strict_text_filters_witness:
  "scoreEntry lowerASCII loveStory hot100 (emptyQuery\<lparr>qtitle := Some ''zzz''\<rparr>) 0 = None
   \<and> scoreEntry lowerASCII loveStory hot100 (emptyQuery\<lparr>qartist := Some ''zzz''\<rparr>) 0 = None
   \<and> scoreEntry lowerASCII loveStory hot100
         (emptyQuery\<lparr>qtitle := Some ''love'', qartist := Some ''zzz''\<rparr>) 0
       = scoreEntry lowerASCII loveStory hot100
         (emptyQuery\<lparr>qtitle := Some ''love'', qartist := None\<rparr>) 0
   \<and> scoreEntry lowerASCII loveStory hot100 (emptyQuery\<lparr>qalbum := Some ''zzz''\<rparr>) 0
       = scoreEntry lowerASCII loveStory hot100 (emptyQuery\<lparr>qalbum := None\<rparr>) 0"
proof -
  have l0: "lowerASCII [] = []"
    by (simp add: lowerASCII_def)
  have m1: "matchText lowerASCII (title loveStory) ''zzz'' False = None"
    by (simp add: matchText_def loveStory_def lowerASCII_def)
  have m2: "matchText lowerASCII (artist loveStory) ''zzz'' False = None"
    by (simp add: matchText_def loveStory_def lowerASCII_def)
  have a: "scoreEntry lowerASCII loveStory hot100 (emptyQuery\<lparr>qtitle := Some ''zzz''\<rparr>) 0 = None"
    using strict_text_filters[of lowerASCII, OF l0, where q = "emptyQuery\<lparr>qtitle := Some ''zzz''\<rparr>" and t = "''zzz''"
            and e = loveStory and a = "''zzz''" and b = "''zzz''" and ch = hot100 and now = 0] m1
    by (simp add: emptyQuery_def truthyBool_def)
  have b: "scoreEntry lowerASCII loveStory hot100 (emptyQuery\<lparr>qartist := Some ''zzz''\<rparr>) 0 = None"
    using strict_text_filters[of lowerASCII, OF l0, where q = "emptyQuery\<lparr>qartist := Some ''zzz''\<rparr>" and t = "''zzz''"
            and e = loveStory and a = "''zzz''" and b = "''zzz''" and ch = hot100 and now = 0] m2
    by (simp add: emptyQuery_def truthyBool_def truthyStr_def)
  have c: "scoreEntry lowerASCII loveStory hot100
         (emptyQuery\<lparr>qtitle := Some ''love'', qartist := Some ''zzz''\<rparr>) 0
       = scoreEntry lowerASCII loveStory hot100
         (emptyQuery\<lparr>qtitle := Some ''love'', qartist := None\<rparr>) 0"
    using strict_text_filters[of lowerASCII, OF l0, where q = "emptyQuery\<lparr>qtitle := Some ''love'', qartist := Some ''zzz''\<rparr>" and t = "''zzz''"
            and e = loveStory and a = "''zzz''" and b = "''zzz''" and ch = hot100 and now = 0] m2
    by (simp add: emptyQuery_def truthyBool_def truthyStr_def)
  have d: "scoreEntry lowerASCII loveStory hot100 (emptyQuery\<lparr>qalbum := Some ''zzz''\<rparr>) 0
       = scoreEntry lowerASCII loveStory hot100 (emptyQuery\<lparr>qalbum := None\<rparr>) 0"
    using strict_text_filters[of lowerASCII, OF l0, where q = "emptyQuery\<lparr>qalbum := Some ''zzz''\<rparr>" and t = "''zzz''"
            and e = loveStory and a = "''zzz''" and b = "''zzz''" and ch = hot100 and now = 0]
    by (simp add: emptyQuery_def loveStory_def)
  from a b c d show ?thesis by blast
qed

section \<open>search\<close>

lemma visitEntry_results:
  "loopResults (visitEntry lower q now ch e st) = loopResults st @ entryResult lower q now ch e"
  by (cases "scoreEntry lower e ch q now") (simp_all add: visitEntry_def entryResult_def Let_def)

lemma fold_visitEntry_results:
  "loopResults (fold (visitEntry lower q now ch) es st)
     = loopResults st @ concat (map (entryResult lower q now ch) es)"
  by (induction es arbitrary: st) (simp_all add: visitEntry_results)

lemma visitChart_results:
  "loopResults (visitChart lower q now ch st) = loopResults st @ chartResults lower q now ch"
  by (simp add: visitChart_def chartResults_def fold_visitEntry_results)

lemma fold_visitChart_results:
  "loopResults (fold (visitChart lower q now) chs st)
     = loopResults st @ concat (map (chartResults lower q now) chs)"
  by (induction chs arbitrary: st) (simp_all add: visitChart_results)

lemma searchLoop_results:
  "loopResults (searchLoop lower eng q now)
     = concat (map (chartResults lower q now) (getRelevantCharts eng q))"
  by (simp add: searchLoop_def fold_visitChart_results)

lemma sortByScore_sorted: "sorted_wrt (\<lambda>a b. score b \<le> score a) (sortByScore rs)"
proof -
  have "sorted (map (\<lambda>r. - score r) (sort_key (\<lambda>r. - score r) rs))"
    by (rule sorted_sort_key)
  then show ?thesis
    by (simp add: sortByScore_def sorted_wrt_map)
qed

lemma slice0_sorted:
  "sorted_wrt P xs \<Longrightarrow> sorted_wrt P (slice0 xs n)"
  by (simp add: slice0_def sorted_wrt_take)

lemma search_results:
  "fst (search lower eng q now) =
     (if truthyNum (qlimit q)
      then slice0 (sortByScore (loopResults (searchLoop lower eng q now))) (the (qlimit q))
      else sortByScore (loopResults (searchLoop lower eng q now)))"
  by (simp add: search_def Let_def)

lemma limit_frame:
  "scoreEntry lower e ch (q\<lparr>qlimit := x\<rparr>) now = scoreEntry lower e ch q now"
  "chartSkipped (q\<lparr>qlimit := x\<rparr>) ch = chartSkipped q ch"
  by (simp_all add: scoreEntry_def chartSkipped_def rankRangeRejects_def weeksRangeRejects_def
        peakRangeRejects_def newEntriesRejects_def titleStep_def artistStep_def albumStep_def
        cong: option.case_cong if_cong)

lemma searchLoop_limit_frame:
  "loopResults (searchLoop lower eng (q\<lparr>qlimit := x\<rparr>) now) = loopResults (searchLoop lower eng q now)"
proof -
  have "entryResult lower (q\<lparr>qlimit := x\<rparr>) now = entryResult lower q now"
    by (intro ext) (simp add: entryResult_def limit_frame)
  then have "chartResults lower (q\<lparr>qlimit := x\<rparr>) now = chartResults lower q now"
    by (intro ext) (simp add: chartResults_def)
  moreover have "getRelevantCharts eng (q\<lparr>qlimit := x\<rparr>) = getRelevantCharts eng q"
    by (simp add: getRelevantCharts_def limit_frame)
  ultimately show ?thesis
    by (simp add: searchLoop_results)
qed

text \<open>
  Claim C7, as amended. The result list of \<open>search\<close> is sorted in non-increasing order
  of score, for every query. When a limit \<open>L\<close> of at least 1 is given, the list is the
  first \<open>L\<close> elements of the full sorted result sequence (the result of the same query
  without limit, which is the sorted array of all passing entries), so its length is the
  minimum of \<open>L\<close> and the number of passing entries.
\<close>

theorem search_sorted_limited:
  "sorted_wrt (\<lambda>a b. score b \<le> score a) (fst (search lower eng q now))
   \<and> (qlimit q = Some L \<and> 0 < L \<longrightarrow>
        fst (search lower eng (q\<lparr>qlimit := None\<rparr>) now)
          = sortByScore (loopResults (searchLoop lower eng q now))
        \<and> fst (search lower eng q now)
          = take (nat L) (fst (search lower eng (q\<lparr>qlimit := None\<rparr>) now))
        \<and> length (fst (search lower eng q now))
          = min (nat L) (length (loopResults (searchLoop lower eng q now))))"
proof -
  have srt: "sorted_wrt (\<lambda>a b. score b \<le> score a) (fst (search lower eng q now))"
    unfolding search_results by (simp add: sortByScore_sorted slice0_sorted)
  have full: "fst (search lower eng (q\<lparr>qlimit := None\<rparr>) now)
      = sortByScore (loopResults (searchLoop lower eng q now))"
    unfolding search_results by (simp add: truthyNum_def searchLoop_limit_frame)
  have lim: "fst (search lower eng q now)
        = take (nat L) (sortByScore (loopResults (searchLoop lower eng q now)))"
    if "qlimit q = Some L" "0 < L"
    unfolding search_results using that by (simp add: truthyNum_def slice0_def)
  have len: "length (sortByScore rs) = length rs" for rs :: "SearchResult list"
    by (simp add: sortByScore_def)
  show ?thesis
    using srt full lim by (auto simp: len min.commute)
qed

theorem search_sorted_limited_witness:
  "sorted_wrt (\<lambda>a b. score b \<le> score a)
     (fst (search lowerASCII demoEngine (emptyQuery\<lparr>qlimit := Some 2\<rparr>) 0))
   \<and> fst (search lowerASCII demoEngine (emptyQuery\<lparr>qlimit := Some 2\<rparr>) 0)
       = take (nat 2)
           (fst (search lowerASCII demoEngine (emptyQuery\<lparr>qlimit := Some 2, qlimit := None\<rparr>) 0))
   \<and> length (fst (search lowerASCII demoEngine (emptyQuery\<lparr>qlimit := Some 2\<rparr>) 0)) = 2"
proof -
  let ?q = "emptyQuery\<lparr>qlimit := Some 2\<rparr>"
  have three: "length (loopResults (searchLoop lowerASCII demoEngine ?q 0)) = 3"
    by code_simp
  have lim: "qlimit ?q = Some 2 \<and> (0::int) < 2"
    by simp
  note T = search_sorted_limited[where lower = lowerASCII and eng = demoEngine and now = 0 and L = 2 and q = ?q]
  from T have a: "sorted_wrt (\<lambda>a b. score b \<le> score a) (fst (search lowerASCII demoEngine ?q 0))"
    by blast
  from T lim have b: "fst (search lowerASCII demoEngine ?q 0)
      = take (nat 2) (fst (search lowerASCII demoEngine (?q\<lparr>qlimit := None\<rparr>) 0))"
    by blast
  from T lim have "length (fst (search lowerASCII demoEngine ?q 0))
      = min (nat 2) (length (loopResults (searchLoop lowerASCII demoEngine ?q 0)))"
    by blast
  then have c: "length (fst (search lowerASCII demoEngine ?q 0)) = 2"
    by (simp only: three)
  from a b c show ?thesis
    by blast
qed

text \<open>
  As stated, the claim fails for the limit 0: \<open>query.limit\<close> is then falsy, no slice is
  taken and all three results are returned, not the first 0.
\<close>

theorem search_limit_zero_counterexample:
  "qlimit (emptyQuery\<lparr>qlimit := Some 0\<rparr>) = Some 0
   \<and> length (fst (search lowerASCII demoEngine (emptyQuery\<lparr>qlimit := Some 0\<rparr>) 0)) = 3
   \<and> min (nat 0) (length (fst (search lowerASCII demoEngine (emptyQuery\<lparr>qlimit := None\<rparr>) 0))) = 0"
  by code_simp

lemma scoreEntry_unfiltered:
  assumes "\<not> truthyStr (qtitle q)" "\<not> truthyStr (qartist q)" "\<not> truthyStr (qalbum q)"
    and "qrankRange q = None" "qweeksRange q = None" "qpeakRange q = None"
    and "\<not> truthyBool (qnewEntriesOnly q)"
  shows "scoreEntry lower e ch q now =
     (if rankBoost e + recencyBoost ch now = 0 then None
      else Some \<lparr>entry = e, chartData = ch, score = rankBoost e + recencyBoost ch now,
                 matches = []\<rparr>)"
proof -
  have t: "titleStep lower e q (0, []) = Some (0, [])"
    using assms(1) by (cases "qtitle q") (simp_all add: titleStep_def truthyStr_def)
  have a: "artistStep lower e q (0, []) = Some (0, [])"
    using assms(2) by (cases "qartist q") (simp_all add: artistStep_def truthyStr_def)
  have b: "albumStep lower e q (0, []) = (0, [])"
    using assms(3) by (cases "qalbum q"; cases "album e") (simp_all add: albumStep_def truthyStr_def)
  have f: "\<not> rankRangeRejects e q" "\<not> weeksRangeRejects e q" "\<not> peakRangeRejects e q"
    "\<not> newEntriesRejects e q"
    using assms(4-7)
    by (simp_all add: rankRangeRejects_def weeksRangeRejects_def peakRangeRejects_def
          newEntriesRejects_def)
  show ?thesis
    by (simp add: scoreEntry_def t a b f Let_def)
qed

lemma rankBoost_positive: "1 \<le> rank e \<Longrightarrow> rank e \<le> 100 \<Longrightarrow> 0 < rankBoost e"
  by (simp add: rankBoost_def)

lemma recencyBoost_nonneg: "0 \<le> recencyBoost ch now"
  by (simp add: recencyBoost_def Let_def)

lemma rankBoost_strict: "rank e1 < rank e2 \<Longrightarrow> rankBoost e2 < rankBoost e1"
  by (simp add: rankBoost_def divide_strict_right_mono)

lemma entry_in_searchLoop:
  assumes "(k, ch) \<in> set (chartDataCache eng)" "\<not> chartSkipped q ch"
    and "e \<in> set (entries ch)" "scoreEntry lower e ch q now = Some r" "0 < score r"
  shows "r \<in> set (loopResults (searchLoop lower eng q now))"
proof -
  have "ch \<in> set (getRelevantCharts eng q)"
    using assms(1,2) by (force simp: getRelevantCharts_def)
  moreover have "r \<in> set (chartResults lower q now ch)"
    using assms(3-5) by (force simp: chartResults_def entryResult_def)
  ultimately show ?thesis
    unfolding searchLoop_results by auto
qed

text \<open>
  Claim C8, as amended. For a query with no title, artist or album text filter, no rank,
  weeks or peak range, \<open>newEntriesOnly\<close> unset and no limit, every entry with a rank
  between 1 and 100 of a chart that the engine holds and that passes the query's source,
  chart type and date range filters appears in the result list, with the position boost
  plus the recency boost as its score; and of two such entries of the same chart the one
  with the smaller rank has the strictly higher score.
\<close>

theorem unfiltered_search_surfaces_entries:
  assumes "\<not> truthyStr (qtitle q)" "\<not> truthyStr (qartist q)" "\<not> truthyStr (qalbum q)"
    and "qrankRange q = None" "qweeksRange q = None" "qpeakRange q = None"
    and "\<not> truthyBool (qnewEntriesOnly q)"
    and "\<not> truthyNum (qlimit q)"
    and "(k, ch) \<in> set (chartDataCache eng)" "\<not> chartSkipped q ch"
    and "e \<in> set (entries ch)" "1 \<le> rank e" "rank e \<le> 100"
  shows "(\<exists>r \<in> set (fst (search lower eng q now)).
            entry r = e \<and> chartData r = ch \<and> score r = rankBoost e + recencyBoost ch now)
       \<and> (\<forall>e2. e2 \<in> set (entries ch) \<and> 1 \<le> rank e2 \<and> rank e2 \<le> 100 \<and> rank e < rank e2
            \<longrightarrow> (\<exists>r1 r2. scoreEntry lower e ch q now = Some r1 \<and> scoreEntry lower e2 ch q now = Some r2
                   \<and> score r2 < score r1))"
proof -
  note sc = scoreEntry_unfiltered[OF assms(1-7)]
  have pos: "0 < rankBoost x + recencyBoost ch now" if "1 \<le> rank x" "rank x \<le> 100" for x
    using rankBoost_positive[OF that] recencyBoost_nonneg[of ch now] by linarith
  let ?r = "\<lparr>entry = e, chartData = ch, score = rankBoost e + recencyBoost ch now,
              matches = []\<rparr>"
  have se: "scoreEntry lower e ch q now = Some ?r"
    using pos[OF assms(12,13)] by (simp add: sc)
  have "?r \<in> set (loopResults (searchLoop lower eng q now))"
    using entry_in_searchLoop[OF assms(9-11) se] pos[OF assms(12,13)] by simp
  then have "?r \<in> set (fst (search lower eng q now))"
    using assms(8) by (simp add: search_results sortByScore_def)
  then have first: "\<exists>r \<in> set (fst (search lower eng q now)).
      entry r = e \<and> chartData r = ch \<and> score r = rankBoost e + recencyBoost ch now"
    by (intro bexI[of _ ?r]) simp_all
  have second: "\<exists>r1 r2. scoreEntry lower e ch q now = Some r1 \<and> scoreEntry lower e2 ch q now = Some r2
      \<and> score r2 < score r1"
    if "1 \<le> rank e2" "rank e2 \<le> 100" "rank e < rank e2" for e2
  proof -
    have "scoreEntry lower e2 ch q now
        = Some \<lparr>entry = e2, chartData = ch, score = rankBoost e2 + recencyBoost ch now,
                 matches = []\<rparr>"
      using pos[OF that(1,2)] by (simp add: scoreEntry_unfiltered[OF assms(1-7)])
    then show ?thesis
      using se rankBoost_strict[OF that(3)] by simp
  qed
  show ?thesis
    using first second by blast
qed

theorem unfiltered_search_surfaces_entries_witness:
  "(\<exists>r \<in> set (fst (search lowerASCII demoEngine emptyQuery 0)).
      entry r = loveStory \<and> chartData r = hot100
      \<and> score r = rankBoost loveStory + recencyBoost hot100 0)
   \<and> (\<exists>r1 r2. scoreEntry lowerASCII loveStory hot100 emptyQuery 0 = Some r1
         \<and> scoreEntry lowerASCII blankSpace hot100 emptyQuery 0 = Some r2 \<and> score r2 < score r1)"
proof -
  have q: "\<not> truthyStr (qtitle emptyQuery)" "\<not> truthyStr (qartist emptyQuery)"
    "\<not> truthyStr (qalbum emptyQuery)" "qrankRange emptyQuery = None"
    "qweeksRange emptyQuery = None" "qpeakRange emptyQuery = None"
    "\<not> truthyBool (qnewEntriesOnly emptyQuery)" "\<not> truthyNum (qlimit emptyQuery)"
    by (simp_all add: emptyQuery_def truthyStr_def truthyBool_def truthyNum_def)
  have mem: "(chartKey hot100, hot100) \<in> set (chartDataCache demoEngine)"
    by (simp add: demoEngine_def indexChartData_def indexChart_def emptyEngine_def)
  have ns: "\<not> chartSkipped emptyQuery hot100"
    by (simp add: chartSkipped_def emptyQuery_def)
  have e: "loveStory \<in> set (entries hot100)" "1 \<le> rank loveStory" "rank loveStory \<le> 100"
    by (simp_all add: hot100_def loveStory_def)
  have e2: "blankSpace \<in> set (entries hot100) \<and> 1 \<le> rank blankSpace \<and> rank blankSpace \<le> 100
      \<and> rank loveStory < rank blankSpace"
    by (simp add: hot100_def loveStory_def blankSpace_def)
  note T = unfiltered_search_surfaces_entries[OF q mem ns e, of lowerASCII 0]
  from T e2 show ?thesis
    by blast
qed

text \<open>
  As stated, the claim fails for a query that has none of the listed filters but has a
  \<open>source\<close> filter: the indexed chart is skipped and its rank 1 entry is not returned.
\<close>

theorem source_filter_counterexample:
  "qtitle (emptyQuery\<lparr>qsource := Some LASTFM\<rparr>) = None
   \<and> qartist (emptyQuery\<lparr>qsource := Some LASTFM\<rparr>) = None
   \<and> qalbum (emptyQuery\<lparr>qsource := Some LASTFM\<rparr>) = None
   \<and> qrankRange (emptyQuery\<lparr>qsource := Some LASTFM\<rparr>) = None
   \<and> qweeksRange (emptyQuery\<lparr>qsource := Some LASTFM\<rparr>) = None
   \<and> qpeakRange (emptyQuery\<lparr>qsource := Some LASTFM\<rparr>) = None
   \<and> qnewEntriesOnly (emptyQuery\<lparr>qsource := Some LASTFM\<rparr>) = None
   \<and> qlimit (emptyQuery\<lparr>qsource := Some LASTFM\<rparr>) = None
   \<and> demoEngine = indexChartData lowerASCII emptyEngine [hot100]
   \<and> loveStory \<in> set (entries hot100)
   \<and> rank loveStory = 1
   \<and> fst (search lowerASCII demoEngine (emptyQuery\<lparr>qsource := Some LASTFM\<rparr>) 0) = []"
proof -
  have "fst (search lowerASCII demoEngine (emptyQuery\<lparr>qsource := Some LASTFM\<rparr>) 0) = []"
    by code_simp
  then show ?thesis
    by (simp add: emptyQuery_def demoEngine_def hot100_def loveStory_def)
qed

section \<open>ChartCache: set, get, expiry and eviction\<close>

lemma saveToStorage_memory: "memoryCache (saveToStorage c key item) = memoryCache c"
  by (cases "localStorage c") (simp_all add: saveToStorage_def)




text \<open>
  Claim C2 at a failing input. The cache holds at most one entry (\<open>maxSize = 1\<close>) and is
  empty. Two \<open>set\<close> calls with distinct keys at the same clock reading leave two
  entries: \<open>evictOldest\<close> starts its scan with \<open>oldestTime = Date.now()\<close> and only takes
  an entry whose timestamp is strictly smaller, so an entry stored within the current
  millisecond is never evicted. One millisecond later the eviction takes place.
\<close>

theorem eviction_skipped_within_one_millisecond:
  "memoryCache demoCache = [] \<and> maxSize (options demoCache) = 1
   \<and> map fst (memoryCache (cache_set (cache_set demoCache ''a'' hot100 1000) ''b'' hot100 1000))
       = [''a'', ''b'']
   \<and> map fst (memoryCache (cache_set (cache_set demoCache ''a'' hot100 1000) ''b'' hot100 1001))
       = [''b'']"
  by (simp add: demoCache_def cache_set_def evictOldest_def oldestStep_def truthyStr_def
        Let_def)

text \<open>
  What the eviction does when the clock has advanced. If some entry is older than the
  current reading, no key is the empty string (\<open>if (oldestKey)\<close> takes an empty key for
  no key) and the keys are distinct, \<open>evictOldest\<close> removes exactly one entry, one of
  smallest timestamp. A sequence of \<open>set\<close> calls with new, distinct, non-empty keys and
  strictly increasing clock readings therefore fills the cache up to \<open>maxSize\<close> and keeps
  it there.
\<close>

lemma fold_oldestStep:
  "\<exists>ko t. fold oldestStep mem (k0, t0) = (ko, t)
     \<and> t \<le> t0
     \<and> (\<forall>kv \<in> set mem. t \<le> timestamp (snd kv))
     \<and> ((ko = k0 \<and> t = t0) \<or> (\<exists>k it. ko = Some k \<and> (k, it) \<in> set mem \<and> timestamp it = t \<and> t < t0))"
proof (induction mem arbitrary: k0 t0)
  case Nil
  then show ?case by simp
next
  case (Cons kv mem)
  obtain k1 t1 where step: "oldestStep kv (k0, t0) = (k1, t1)"
    by (cases "oldestStep kv (k0, t0)")
  have s1: "t1 \<le> t0" "t1 \<le> timestamp (snd kv)"
    "(k1 = k0 \<and> t1 = t0) \<or> (k1 = Some (fst kv) \<and> timestamp (snd kv) = t1 \<and> t1 < t0)"
    using step by (auto simp: oldestStep_def split: if_splits)
  from Cons.IH[of k1 t1] obtain ko t where r:
    "fold oldestStep mem (k1, t1) = (ko, t)" "t \<le> t1"
    "\<forall>kv \<in> set mem. t \<le> timestamp (snd kv)"
    "(ko = k1 \<and> t = t1) \<or> (\<exists>k it. ko = Some k \<and> (k, it) \<in> set mem \<and> timestamp it = t \<and> t < t1)"
    by blast
  have "fold oldestStep (kv # mem) (k0, t0) = (ko, t)"
    by (simp add: step r(1))
  moreover have "t \<le> t0"
    using r(2) s1(1) by simp
  moreover have "\<forall>x \<in> set (kv # mem). t \<le> timestamp (snd x)"
    using r(2,3) s1(2) by auto
  moreover have "(ko = k0 \<and> t = t0)
      \<or> (\<exists>k it. ko = Some k \<and> (k, it) \<in> set (kv # mem) \<and> timestamp it = t \<and> t < t0)"
  proof -
    from r(4) show ?thesis
    proof
      assume a: "ko = k1 \<and> t = t1"
      from s1(3) show ?thesis
      proof
        assume "k1 = k0 \<and> t1 = t0"
        with a show ?thesis by simp
      next
        assume b: "k1 = Some (fst kv) \<and> timestamp (snd kv) = t1 \<and> t1 < t0"
        have "(fst kv, snd kv) \<in> set (kv # mem)" by simp
        with a b show ?thesis by blast
      qed
    next
      assume "\<exists>k it. ko = Some k \<and> (k, it) \<in> set mem \<and> timestamp it = t \<and> t < t1"
      then obtain k it where "ko = Some k" "(k, it) \<in> set mem" "timestamp it = t" "t < t1"
        by blast
      moreover have "t < t0" using \<open>t < t1\<close> s1(1) by simp
      ultimately have "ko = Some k \<and> (k, it) \<in> set (kv # mem) \<and> timestamp it = t \<and> t < t0"
        by simp
      then show ?thesis by blast
    qed
  qed
  ultimately show ?case by blast
qed

lemma length_delete_present:
  "distinct (map fst al) \<Longrightarrow> (k, v) \<in> set al \<Longrightarrow> Suc (length (AList.delete k al)) = length al"
proof (induction al)
  case Nil
  then show ?case by simp
next
  case (Cons p al)
  show ?case
  proof (cases "fst p = k")
    case True
    then have "k \<notin> fst ` set al"
      using Cons.prems(1) by auto
    then show ?thesis
      using True by simp
  next
    case False
    then have "(k, v) \<in> set al"
      using Cons.prems(2) by auto
    then show ?thesis
      using False Cons by simp
  qed
qed

lemma evictOldest_evicts:
  assumes old: "\<exists>kv \<in> set mem. timestamp (snd kv) < now"
    and keys: "\<forall>kv \<in> set mem. fst kv \<noteq> []"
    and dist: "distinct (map fst mem)"
  shows "\<exists>k it. (k, it) \<in> set mem
      \<and> (\<forall>kv \<in> set mem. timestamp it \<le> timestamp (snd kv))
      \<and> evictOldest mem now = AList.delete k mem
      \<and> Suc (length (evictOldest mem now)) = length mem"
proof -
  from fold_oldestStep[of mem None now] obtain ko t where r:
    "fold oldestStep mem (None, now) = (ko, t)"
    "\<forall>kv \<in> set mem. t \<le> timestamp (snd kv)"
    "(ko = None \<and> t = now) \<or> (\<exists>k it. ko = Some k \<and> (k, it) \<in> set mem \<and> timestamp it = t \<and> t < now)"
    by blast
  have "\<not> (ko = None \<and> t = now)"
    using old r(2) by force
  with r(3) obtain k it where k: "ko = Some k" "(k, it) \<in> set mem" "timestamp it = t"
    by blast
  have "k \<noteq> []"
    using keys k(2) by force
  then have ev: "evictOldest mem now = AList.delete k mem"
    by (simp add: evictOldest_def r(1) k(1) truthyStr_def)
  have "Suc (length (evictOldest mem now)) = length mem"
    unfolding ev by (rule length_delete_present[OF dist k(2)])
  with k r(2) ev show ?thesis
    by blast
qed


lemma update_fresh: "k \<notin> fst ` set al \<Longrightarrow> AList.update k v al = al @ [(k, v)]"
  by (induction al) auto

lemma set_delete_subset: "set (AList.delete k al) \<subseteq> set al"
  by (induction al) auto

lemma evictOldest_subset: "set (evictOldest mem now) \<subseteq> set mem"
  by (simp add: evictOldest_def Let_def set_delete_subset)

lemma evictOldest_distinct:
  "distinct (map fst mem) \<Longrightarrow> distinct (map fst (evictOldest mem now))"
  by (simp add: evictOldest_def Let_def distinct_delete)

lemma cache_set_options: "options (cache_set c key d now) = options c"
  by (cases "localStorage c") (simp_all add: cache_set_def Let_def saveToStorage_def)

lemma cache_set_memory:
  "memoryCache (cache_set c key d now)
     = AList.update key \<lparr>data = d, timestamp = now, ttl = ttlOption (options c)\<rparr>
         (if int (length (memoryCache c)) \<ge> maxSize (options c)
          then evictOldest (memoryCache c) now else memoryCache c)"
  by (simp add: cache_set_def Let_def saveToStorage_memory)

lemma cache_set_step:
  assumes dist: "distinct (map fst (memoryCache c))"
    and keys: "\<forall>kv \<in> set (memoryCache c). fst kv \<noteq> []"
    and old: "\<forall>kv \<in> set (memoryCache c). timestamp (snd kv) < now"
    and fresh: "key \<notin> fst ` set (memoryCache c)"
    and one: "1 \<le> maxSize (options c)"
  shows "set (memoryCache (cache_set c key d now))
           \<subseteq> insert (key, \<lparr>data = d, timestamp = now, ttl = ttlOption (options c)\<rparr>)
               (set (memoryCache c))"
    and "distinct (map fst (memoryCache (cache_set c key d now)))"
    and "length (memoryCache (cache_set c key d now))
           = (if int (length (memoryCache c)) \<ge> maxSize (options c)
              then length (memoryCache c) else Suc (length (memoryCache c)))"
proof -
  let ?mem = "memoryCache c"
  let ?item = "\<lparr>data = d, timestamp = now, ttl = ttlOption (options c)\<rparr>"
  let ?mem1 = "if int (length ?mem) \<ge> maxSize (options c) then evictOldest ?mem now else ?mem"
  have sub: "set ?mem1 \<subseteq> set ?mem"
    using evictOldest_subset[of ?mem now] by simp
  then have fresh1: "key \<notin> fst ` set ?mem1"
    using fresh by blast
  have m: "memoryCache (cache_set c key d now) = ?mem1 @ [(key, ?item)]"
    unfolding cache_set_memory by (rule update_fresh[OF fresh1])
  show "set (memoryCache (cache_set c key d now)) \<subseteq> insert (key, ?item) (set ?mem)"
    unfolding m using sub by auto
  have "distinct (map fst ?mem1)"
    using dist evictOldest_distinct[of ?mem now] by simp
  then show "distinct (map fst (memoryCache (cache_set c key d now)))"
    unfolding m using fresh1 by simp
  show "length (memoryCache (cache_set c key d now))
      = (if int (length ?mem) \<ge> maxSize (options c) then length ?mem else Suc (length ?mem))"
  proof (cases "int (length ?mem) \<ge> maxSize (options c)")
    case True
    then have "?mem \<noteq> []"
      using one by auto
    then obtain kv where "kv \<in> set ?mem"
      by (cases ?mem) auto
    then have "\<exists>kv \<in> set ?mem. timestamp (snd kv) < now"
      using old by blast
    from evictOldest_evicts[OF this keys dist]
    have "Suc (length (evictOldest ?mem now)) = length ?mem"
      by blast
    then show ?thesis
      unfolding m using True by simp
  next
    case False
    then show ?thesis
      unfolding m by simp
  qed
qed


lemma setAll_size:
  assumes "distinct (map fst (memoryCache c))"
    and "\<forall>kv \<in> set (memoryCache c). fst kv \<noteq> []"
    and "\<forall>kv \<in> set (memoryCache c). \<forall>call \<in> set calls. timestamp (snd kv) < snd (snd call)"
    and "fst ` set (memoryCache c) \<inter> fst ` set calls = {}"
    and "distinct (map fst calls)"
    and "\<forall>call \<in> set calls. fst call \<noteq> []"
    and "sorted_wrt (<) (map (\<lambda>call. snd (snd call)) calls)"
    and "1 \<le> maxSize (options c)"
    and "int (length (memoryCache c)) \<le> maxSize (options c)"
  shows "int (length (memoryCache (setAll c calls)))
     = min (int (length (memoryCache c)) + int (length calls)) (maxSize (options c))"
  using assms
proof (induction calls arbitrary: c)
  case Nil
  then show ?case by (simp add: setAll_def)
next
  case (Cons call calls)
  obtain key d now where call: "call = (key, d, now)"
    by (cases call)
  let ?c1 = "cache_set c key d now"
  let ?item = "\<lparr>data = d, timestamp = now, ttl = ttlOption (options c)\<rparr>"
  have old: "\<forall>kv \<in> set (memoryCache c). timestamp (snd kv) < now"
    using Cons.prems(3) call by auto
  have fresh: "key \<notin> fst ` set (memoryCache c)"
    using Cons.prems(4) call by auto
  note step = cache_set_step[OF Cons.prems(1,2) old fresh Cons.prems(8), of d]
  have sub: "set (memoryCache ?c1) \<subseteq> insert (key, ?item) (set (memoryCache c))"
    by (rule step(1))
  have len: "length (memoryCache ?c1)
      = (if int (length (memoryCache c)) \<ge> maxSize (options c)
         then length (memoryCache c) else Suc (length (memoryCache c)))"
    by (rule step(3))
  have opt: "options ?c1 = options c"
    by (rule cache_set_options)
  have p2: "\<forall>kv \<in> set (memoryCache ?c1). fst kv \<noteq> []"
    using sub Cons.prems(2,6) call by auto
  have later: "\<forall>x \<in> set calls. now < snd (snd x)"
    using Cons.prems(7) call by simp
  have p3: "\<forall>kv \<in> set (memoryCache ?c1). \<forall>x \<in> set calls. timestamp (snd kv) < snd (snd x)"
  proof (intro ballI)
    fix kv x
    assume kv: "kv \<in> set (memoryCache ?c1)" and x: "x \<in> set calls"
    from kv sub have "kv = (key, ?item) \<or> kv \<in> set (memoryCache c)"
      by auto
    then show "timestamp (snd kv) < snd (snd x)"
    proof
      assume "kv = (key, ?item)"
      then show ?thesis using later x by simp
    next
      assume "kv \<in> set (memoryCache c)"
      then show ?thesis using Cons.prems(3) x by simp
    qed
  qed
  have knew: "key \<notin> fst ` set calls"
    using Cons.prems(5) call by auto
  have p4: "fst ` set (memoryCache ?c1) \<inter> fst ` set calls = {}"
  proof -
    have "fst ` set (memoryCache ?c1) \<subseteq> insert key (fst ` set (memoryCache c))"
      using sub by auto
    moreover have "fst ` set (memoryCache c) \<inter> fst ` set calls = {}"
      using Cons.prems(4) by auto
    ultimately show ?thesis
      using knew by blast
  qed
  have p5: "distinct (map fst calls)" "\<forall>x \<in> set calls. fst x \<noteq> []"
    "sorted_wrt (<) (map (\<lambda>call. snd (snd call)) calls)"
    using Cons.prems(5,6,7) by simp_all
  have p8: "1 \<le> maxSize (options ?c1)"
    using Cons.prems(8) opt by simp
  have p9: "int (length (memoryCache ?c1)) \<le> maxSize (options ?c1)"
    using Cons.prems(9) len opt by (simp split: if_splits)
  have IH: "int (length (memoryCache (setAll ?c1 calls)))
      = min (int (length (memoryCache ?c1)) + int (length calls)) (maxSize (options ?c1))"
    by (rule Cons.IH[OF step(2) p2 p3 p4 p5 p8 p9])
  have unf: "setAll c (call # calls) = setAll ?c1 calls"
    by (simp add: setAll_def call)
  show ?case
  proof (cases "int (length (memoryCache c)) \<ge> maxSize (options c)")
    case True
    then have "length (memoryCache ?c1) = length (memoryCache c)"
      using len by simp
    then show ?thesis
      unfolding unf IH opt using True Cons.prems(9) by simp
  next
    case False
    then have "length (memoryCache ?c1) = Suc (length (memoryCache c))"
      using len by simp
    then have "int (length (memoryCache ?c1)) + int (length calls)
        = int (length (memoryCache c)) + int (length (call # calls))"
      by simp
    then show ?thesis
      unfolding unf IH opt by (simp only:)
  qed
qed

lemma fold_count:
  "fold (\<lambda>kv (expired, valid).
           if isExpired (snd kv) now then (expired + 1, valid) else (expired, valid + 1))
        xs (a, b)
   = (a + length (filter (\<lambda>kv. isExpired (snd kv) now) xs),
      b + length (filter (\<lambda>kv. \<not> isExpired (snd kv) now) xs))"
  by (induction xs arbitrary: a b) simp_all

lemma getStats_validItems:
  "validItems (getStats c now)
     = length (filter (\<lambda>kv. \<not> isExpired (snd kv) now) (memoryCache c))"
  by (simp add: getStats_def Let_def fold_count)

lemma delete_filter: "AList.delete k al = filter (\<lambda>kv. fst kv \<noteq> k) al"
  by (induction al) auto

lemma cache_delete_memory:
  "memoryCache (cache_delete c key) = AList.delete key (memoryCache c)"
  by (cases "localStorage c") (simp_all add: cache_delete_def Let_def)

lemma cache_delete_store:
  "localStorage (cache_delete c key)
     = (if persistent (options c) then map_option (AList.delete (storageKey key)) (localStorage c)
        else localStorage c)"
  by (cases "localStorage c") (simp_all add: cache_delete_def Let_def)

lemma cache_delete_options: "options (cache_delete c key) = options c"
  by (cases "localStorage c") (simp_all add: cache_delete_def Let_def)

text \<open>
  \<open>loadFromStorage\<close> with a key that is not empty reads the one item and returns, whatever
  the fuel. An item can only come from that branch: the load of all items returns null.
\<close>

lemma loadFromStorage_key:
  "key \<noteq> [] \<Longrightarrow>
   loadFromStorage n c key now
     = Some (case localStorage c of None \<Rightarrow> None | Some st \<Rightarrow> map_of st (storageKey key), c)"
  by (cases n; cases "localStorage c") simp_all

lemma loadFromStorage_found:
  assumes "loadFromStorage n c key now = Some (Some item, c1)"
  shows "key \<noteq> [] \<and> c1 = c
     \<and> (\<exists>st. localStorage c = Some st \<and> map_of st (storageKey key) = Some item)"
proof (cases "key = []")
  case True
  then have False
    using assms by (cases n; cases "localStorage c") (simp_all split: option.splits)
  then show ?thesis ..
next
  case False
  then show ?thesis
    using assms by (cases "localStorage c") (simp_all add: loadFromStorage_key)
qed

text \<open>Neither function writes to the store or changes the options.\<close>

lemma load_frame:
  "(\<forall>r c1. loadFromStorage n c key now = Some (r, c1)
       \<longrightarrow> localStorage c1 = localStorage c \<and> options c1 = options c)"
  "(\<forall>c1. loadEach n names c now = Some c1
       \<longrightarrow> localStorage c1 = localStorage c \<and> options c1 = options c)"
proof (induction n c key now and n names c now rule: loadFromStorage_loadEach.induct)
  case (1 c key now)
  then show ?case
    by (cases "localStorage c"; cases "key = []") simp_all
next
  case (2 n c key now)
  show ?case
  proof (cases "localStorage c")
    case None
    then show ?thesis by simp
  next
    case (Some st)
    show ?thesis
    proof (cases "key = []")
      case False
      then show ?thesis using Some by simp
    next
      case True
      let ?names = "filter (\<lambda>k. take (length storagePrefix) k = storagePrefix) (map fst st)"
      have "\<forall>c1. loadEach n ?names c now = Some c1
          \<longrightarrow> localStorage c1 = localStorage c \<and> options c1 = options c"
        using 2[OF Some] True by simp
      then show ?thesis
        using Some True by (cases "loadEach n ?names c now") simp_all
    qed
  qed
next
  case (3 n c now)
  then show ?case
    by simp
next
  case (4 n name names c now)
  show ?case
  proof (intro allI impI)
    fix c1
    assume a: "loadEach n (name # names) c now = Some c1"
    let ?key = "drop (length storagePrefix) name"
    from a obtain item c0 where l: "loadFromStorage n c ?key now = Some (item, c0)"
      by (cases "loadFromStorage n c ?key now") (auto simp: Let_def)
    let ?c' = "case item of None \<Rightarrow> c0
                | Some it \<Rightarrow> if \<not> isExpired it now
                    then c0\<lparr>memoryCache := AList.update ?key it (memoryCache c0)\<rparr> else c0"
    from a l have r: "loadEach n names ?c' now = Some c1"
      by (simp add: Let_def)
    have f0: "localStorage c0 = localStorage c \<and> options c0 = options c"
      using 4(1)[OF refl] l by blast
    have f1: "localStorage ?c' = localStorage c0 \<and> options ?c' = options c0"
      by (cases item) auto
    have "localStorage c1 = localStorage ?c' \<and> options c1 = options ?c'"
      using 4(2)[OF refl l refl] r by blast
    with f0 f1 show "localStorage c1 = localStorage c \<and> options c1 = options c"
      by simp
  qed
qed


text \<open>
  When a stored name is the bare prefix, the load of all items (and so \<open>get\<close> of the
  empty key, when that key is not in memory) does not return, whatever the fuel. When no
  stored name is the bare prefix, one unit of fuel suffices for every call.
\<close>

lemma load_bare_prefix:
  "localStorage c = Some st \<and> storagePrefix \<in> fst ` set st \<and> key = []
     \<longrightarrow> loadFromStorage n c key now = None"
  "localStorage c = Some st \<and> storagePrefix \<in> fst ` set st \<and> storagePrefix \<in> set names
     \<longrightarrow> loadEach n names c now = None"
proof (induction n c key now and n names c now rule: loadFromStorage_loadEach.induct)
  case (1 c key now)
  then show ?case
    by simp
next
  case (2 n c key now)
  show ?case
  proof (intro impI)
    assume a: "localStorage c = Some st \<and> storagePrefix \<in> fst ` set st \<and> key = []"
    let ?names = "filter (\<lambda>k. take (length storagePrefix) k = storagePrefix) (map fst st)"
    have "storagePrefix \<in> set ?names"
      using a by simp
    then have "loadEach n ?names c now = None"
      using 2[of st] a by simp
    then show "loadFromStorage (Suc n) c key now = None"
      using a by simp
  qed
next
  case (3 n c now)
  then show ?case
    by simp
next
  case (4 n name names c now)
  show ?case
  proof (intro impI)
    assume a: "localStorage c = Some st \<and> storagePrefix \<in> fst ` set st
        \<and> storagePrefix \<in> set (name # names)"
    let ?key = "drop (length storagePrefix) name"
    show "loadEach n (name # names) c now = None"
    proof (cases "loadFromStorage n c ?key now")
      case None
      then show ?thesis
        by (simp add: Let_def)
    next
      case (Some p)
      obtain item c0 where p: "p = (item, c0)"
        by (cases p)
      note l = Some[unfolded p]
      let ?c' = "case item of None \<Rightarrow> c0
                  | Some it \<Rightarrow> if \<not> isExpired it now
                      then c0\<lparr>memoryCache := AList.update ?key it (memoryCache c0)\<rparr> else c0"
      have "name \<noteq> storagePrefix"
        using 4(1)[OF refl] a l by auto
      then have mem: "storagePrefix \<in> set names"
        using a by auto
      have "localStorage c0 = localStorage c"
        using load_frame(1)[of n c ?key now] l by blast
      moreover have "localStorage ?c' = localStorage c0"
        by (cases item) auto
      ultimately have "localStorage ?c' = Some st"
        using a by simp
      then have "loadEach n names ?c' now = None"
        using 4(2)[OF refl l refl] a mem by blast
      then show ?thesis
        using l by (simp add: Let_def)
    qed
  qed
qed

lemma loadEach_returns:
  "\<forall>name \<in> set names. drop (length storagePrefix) name \<noteq> [] \<Longrightarrow>
   \<exists>c1. loadEach n names c now = Some c1"
proof (induction names arbitrary: c)
  case Nil
  then show ?case
    by simp
next
  case (Cons name names)
  then have k: "drop (length storagePrefix) name \<noteq> []"
    by simp
  show ?case
    using Cons by (simp add: loadFromStorage_key[OF k] Let_def)
qed

lemma loadFromStorage_returns:
  assumes "\<forall>st. localStorage c = Some st \<longrightarrow> storagePrefix \<notin> fst ` set st"
  shows "\<exists>r c1. loadFromStorage (Suc n) c key now = Some (r, c1)"
proof (cases "localStorage c")
  case None
  then show ?thesis
    by simp
next
  case (Some st)
  let ?names = "filter (\<lambda>k. take (length storagePrefix) k = storagePrefix) (map fst st)"
  have "drop (length storagePrefix) name \<noteq> []" if "name \<in> set ?names" for name
  proof
    assume d: "drop (length storagePrefix) name = []"
    have "name = take (length storagePrefix) name @ drop (length storagePrefix) name"
      by simp
    also have "\<dots> = storagePrefix"
      using that d by simp
    finally show False
      using that assms Some by auto
  qed
  then obtain c1 where "loadEach n ?names c now = Some c1"
    using loadEach_returns[of ?names n c now] by blast
  then show ?thesis
    using Some by (cases "key = []") simp_all
qed


lemma cache_get_returns:
  assumes "\<forall>st. localStorage c = Some st \<longrightarrow> storagePrefix \<notin> fst ` set st"
  shows "\<exists>r. cache_get (Suc n) c key now = Some r"
proof -
  obtain r c1 where "loadFromStorage (Suc n) c key now = Some (r, c1)"
    using loadFromStorage_returns[OF assms] by blast
  then have "\<exists>p. fetchItem (Suc n) c key now = Some p"
    by (cases "map_of (memoryCache c) key"; cases r) (simp_all add: fetchItem_def)
  then obtain io c2 where "fetchItem (Suc n) c key now = Some (io, c2)"
    by auto
  then show ?thesis
    by (cases io) (simp_all add: cache_get_def)
qed

lemma cache_get_bare_prefix:
  assumes "persistent (options c)" "map_of (memoryCache c) [] = None"
    and "localStorage c = Some st" "storagePrefix \<in> fst ` set st"
  shows "cache_get n c [] now = None"
  using load_bare_prefix(1)[of c st "[]" n now] assms by (simp add: cache_get_def fetchItem_def)

lemma fetchItem_found:
  assumes "fetchItem fuel c key now = Some (Some item, c1)"
  shows "options c1 = options c" "localStorage c1 = localStorage c"
    "AList.delete key (memoryCache c1) = AList.delete key (memoryCache c)"
proof -
  have "c1 = c \<or> c1 = c\<lparr>memoryCache := AList.update key item (memoryCache c)\<rparr>"
  proof (cases "map_of (memoryCache c) key")
    case (Some it)
    then show ?thesis
      using assms by (simp add: fetchItem_def)
  next
    case None
    then obtain li c0 where l: "loadFromStorage fuel c key now = Some (Some li, c0)"
        and r: "item = li" "c1 = c0\<lparr>memoryCache := AList.update key li (memoryCache c0)\<rparr>"
      using assms by (auto simp: fetchItem_def split: if_splits option.splits)
    from loadFromStorage_found[OF l] have "c0 = c"
      by simp
    then show ?thesis
      using r by simp
  qed
  then show "options c1 = options c" "localStorage c1 = localStorage c"
    "AList.delete key (memoryCache c1) = AList.delete key (memoryCache c)"
    by (auto simp: delete_update_same)
qed

lemma cache_get_expired:
  assumes "fetchItem fuel c key now = Some (Some item, c1)" "isExpired item now"
  shows "cache_get fuel c key now = Some (None, cache_delete c1 key)"
  using assms by (simp add: cache_get_def)

lemma map_of_delete_same: "map_of (AList.delete k al) k = None"
  by (simp add: delete_conv')

text \<open>
  Claim C3. When the entry that \<open>get(k)\<close> finds for \<open>k\<close> (in memory, or else in the store
  of a persistent cache) has \<open>now - timestamp > ttl\<close>, then \<open>get(k)\<close> returns and reports
  the value absent, the key is no longer in memory (the memory is the old one without
  \<open>k\<close>), a later \<open>getStats()\<close> counts as valid only unexpired entries of other keys, and
  in a persistent cache the key is gone from the store as well: the store is the old one
  without the name \<open>brickcharts-k\<close>, and a later load of \<open>k\<close> finds nothing.
\<close>

theorem expired_get:
  assumes "map_option fst (fetchItem fuel c key now) = Some (Some item)" "isExpired item now"
  shows "\<exists>c2. cache_get fuel c key now = Some (None, c2)
     \<and> map_of (memoryCache c2) key = None
     \<and> memoryCache c2 = AList.delete key (memoryCache c)
     \<and> validItems (getStats c2 now2)
         = length (filter (\<lambda>kv. fst kv \<noteq> key \<and> \<not> isExpired (snd kv) now2) (memoryCache c))
     \<and> (persistent (options c) \<longrightarrow>
          localStorage c2 = map_option (AList.delete (storageKey key)) (localStorage c)
          \<and> (\<forall>st. localStorage c2 = Some st \<longrightarrow> map_of st (storageKey key) = None)
          \<and> (key \<noteq> [] \<longrightarrow> loadFromStorage fuel2 c2 key now3 = Some (None, c2)))"
proof -
  from assms(1) obtain c1 where f: "fetchItem fuel c key now = Some (Some item, c1)"
    by (cases "fetchItem fuel c key now") auto
  let ?c2 = "cache_delete c1 key"
  have g: "cache_get fuel c key now = Some (None, ?c2)"
    by (rule cache_get_expired[OF f assms(2)])
  have mem: "memoryCache ?c2 = AList.delete key (memoryCache c)"
    by (simp add: cache_delete_memory fetchItem_found(3)[OF f])
  have gone: "map_of (memoryCache ?c2) key = None"
    unfolding mem by (rule map_of_delete_same)
  have cnt: "validItems (getStats ?c2 now2)
      = length (filter (\<lambda>kv. fst kv \<noteq> key \<and> \<not> isExpired (snd kv) now2) (memoryCache c))"
    by (simp add: getStats_validItems mem delete_filter conj_commute)
  have sto: "localStorage ?c2 = map_option (AList.delete (storageKey key)) (localStorage c)"
    if "persistent (options c)"
    using that by (simp add: cache_delete_store fetchItem_found(1,2)[OF f])
  have absent: "map_of st (storageKey key) = None"
    if "persistent (options c)" "localStorage ?c2 = Some st" for st
    using that sto by (auto simp: map_of_delete_same)
  have load: "loadFromStorage fuel2 ?c2 key now3 = Some (None, ?c2)"
    if "persistent (options c)" "key \<noteq> []"
  proof (cases "localStorage ?c2")
    case None
    then show ?thesis
      by (simp add: loadFromStorage_key[OF that(2)])
  next
    case (Some st)
    then show ?thesis
      using absent[OF that(1) Some] by (simp add: loadFromStorage_key[OF that(2)])
  qed
  show ?thesis
  proof (intro exI[of _ ?c2] conjI impI allI)
    show "cache_get fuel c key now = Some (None, ?c2)"
      by (rule g)
    show "map_of (memoryCache ?c2) key = None"
      by (rule gone)
    show "memoryCache ?c2 = AList.delete key (memoryCache c)"
      by (rule mem)
    show "validItems (getStats ?c2 now2)
        = length (filter (\<lambda>kv. fst kv \<noteq> key \<and> \<not> isExpired (snd kv) now2) (memoryCache c))"
      by (rule cnt)
    show "localStorage ?c2 = map_option (AList.delete (storageKey key)) (localStorage c)"
      if "persistent (options c)"
      by (rule sto[OF that])
    show "map_of st (storageKey key) = None"
      if "persistent (options c)" "localStorage ?c2 = Some st" for st
      by (rule absent[OF that])
    show "loadFromStorage fuel2 ?c2 key now3 = Some (None, ?c2)"
      if "persistent (options c)" "key \<noteq> []"
      by (rule load[OF that])
  qed
qed

theorem expired_get_witness:
  "map_option fst (fetchItem 0 staleCache ''old'' 2000)
     = Some (Some \<lparr>data = hot100, timestamp = 1000, ttl = 10\<rparr>)
   \<and> isExpired \<lparr>data = hot100, timestamp = 1000, ttl = 10\<rparr> 2000
   \<and> (\<exists>c2. cache_get 0 staleCache ''old'' 2000 = Some (None, c2)
        \<and> map_of (memoryCache c2) ''old'' = None
        \<and> validItems (getStats c2 2000) = 1
        \<and> validItems (getStats c2 1005) = 1)
   \<and> validItems (getStats staleCache 2000) = 1
   \<and> validItems (getStats staleCache 1005) = 2
   \<and> map_option fst (fetchItem 0 storedCache ''old'' 2000)
     = Some (Some \<lparr>data = hot100, timestamp = 1000, ttl = 10\<rparr>)
   \<and> persistent (options storedCache)
   \<and> (\<exists>c2. cache_get 0 storedCache ''old'' 2000 = Some (None, c2)
        \<and> memoryCache c2 = []
        \<and> localStorage c2
            = Some [(''brickcharts-new'', \<lparr>data = hot100, timestamp = 1990, ttl = 10\<rparr>)]
        \<and> loadFromStorage 0 c2 ''old'' 2000 = Some (None, c2))"
proof -
  let ?old = "\<lparr>data = hot100, timestamp = 1000, ttl = 10\<rparr>"
  have f: "map_option fst (fetchItem 0 staleCache ''old'' 2000) = Some (Some ?old)"
    by (simp add: fetchItem_def staleCache_def)
  have x: "isExpired ?old 2000"
    by (simp add: isExpired_def)
  have before: "validItems (getStats staleCache 2000) = 1"
    "validItems (getStats staleCache 1005) = 2"
    by (simp_all add: getStats_def staleCache_def isExpired_def Let_def)
  have after: "length (filter (\<lambda>kv. fst kv \<noteq> ''old'' \<and> \<not> isExpired (snd kv) t)
      (memoryCache staleCache)) = (if t - 1990 > 10 then 0 else 1)" for t
    by (simp add: staleCache_def isExpired_def)
  from expired_get[OF f x, of 2000] obtain c2 where c2:
    "cache_get 0 staleCache ''old'' 2000 = Some (None, c2)"
    "map_of (memoryCache c2) ''old'' = None"
    "validItems (getStats c2 2000)
       = length (filter (\<lambda>kv. fst kv \<noteq> ''old'' \<and> \<not> isExpired (snd kv) 2000)
           (memoryCache staleCache))"
    by blast
  from expired_get[OF f x, of 1005] c2(1) have c2': "validItems (getStats c2 1005)
       = length (filter (\<lambda>kv. fst kv \<noteq> ''old'' \<and> \<not> isExpired (snd kv) 1005)
           (memoryCache staleCache))"
    by auto
  have stale: "\<exists>c2. cache_get 0 staleCache ''old'' 2000 = Some (None, c2)
      \<and> map_of (memoryCache c2) ''old'' = None
      \<and> validItems (getStats c2 2000) = 1 \<and> validItems (getStats c2 1005) = 1"
    using c2 c2' by (intro exI[of _ c2]) (simp add: after)
  have g: "map_option fst (fetchItem 0 storedCache ''old'' 2000) = Some (Some ?old)"
    by (simp add: fetchItem_def storedCache_def storageKey_def storagePrefix_def)
  have p: "persistent (options storedCache)"
    by (simp add: storedCache_def)
  have ne: "''old'' \<noteq> []"
    by simp
  from expired_get[OF g x, of 2000 0 2000] p ne obtain c3 where c3:
    "cache_get 0 storedCache ''old'' 2000 = Some (None, c3)"
    "memoryCache c3 = AList.delete ''old'' (memoryCache storedCache)"
    "localStorage c3 = map_option (AList.delete (storageKey ''old'')) (localStorage storedCache)"
    "loadFromStorage 0 c3 ''old'' 2000 = Some (None, c3)"
    by blast
  have stored: "\<exists>c2. cache_get 0 storedCache ''old'' 2000 = Some (None, c2)
      \<and> memoryCache c2 = []
      \<and> localStorage c2
          = Some [(''brickcharts-new'', \<lparr>data = hot100, timestamp = 1990, ttl = 10\<rparr>)]
      \<and> loadFromStorage 0 c2 ''old'' 2000 = Some (None, c2)"
    using c3 by (intro exI[of _ c3]) (simp add: storedCache_def storageKey_def storagePrefix_def)
  from f x stale before g p stored show ?thesis
    by blast
qed

end
